theory Spec2Isabelle
  imports Complex_Main "HOL-Library.Sublist" "HOL-Library.List_Lexorder" "HOL-Library.AList"
    "HOL-Library.Extended_Nat"
begin

section \<open>JavaScript strings\<close>

text \<open>
  A JavaScript string is a sequence of UTF-16 code units. The bullet glyph that separates
  facts is U+2022 (8226), outside the range of \<^typ>\<open>char\<close>, so a code unit is a natural
  number and a string a list of them. \<open>js\<close> embeds an ASCII literal.
\<close>

type_synonym jschar = nat
type_synonym jsstring = "nat list"

definition js :: "string \<Rightarrow> jsstring" where
  "js s = map of_char s"

text \<open>
  \<open>\s\<close> of a regular expression, and the characters \<open>trim\<close> strips and \<open>parseInt\<close> skips:
  WhiteSpace (TAB, VT, FF, SP, NBSP, ZWNBSP and category Zs) and LineTerminator
  (LF, CR, LS, PS).
\<close>

definition isSpace :: "jschar \<Rightarrow> bool" where
  "isSpace c \<longleftrightarrow> c = 9 \<or> c = 10 \<or> c = 11 \<or> c = 12 \<or> c = 13 \<or> c = 32 \<or> c = 160
     \<or> c = 5760 \<or> (8192 \<le> c \<and> c \<le> 8202) \<or> c = 8232 \<or> c = 8233 \<or> c = 8239
     \<or> c = 8287 \<or> c = 12288 \<or> c = 65279"

definition isDigit :: "jschar \<Rightarrow> bool" where
  "isDigit c \<longleftrightarrow> 48 \<le> c \<and> c \<le> 57"

text \<open>\<open>\w\<close>, which is also the class \<open>[A-Za-z0-9_]\<close> the patterns spell out.\<close>

definition isWord :: "jschar \<Rightarrow> bool" where
  "isWord c \<longleftrightarrow> (65 \<le> c \<and> c \<le> 90) \<or> (97 \<le> c \<and> c \<le> 122) \<or> (48 \<le> c \<and> c \<le> 57) \<or> c = 95"

definition trimStart :: "jsstring \<Rightarrow> jsstring" where
  "trimStart s = dropWhile isSpace s"

definition trimEnd :: "jsstring \<Rightarrow> jsstring" where
  "trimEnd s = rev (dropWhile isSpace (rev s))"

definition trim :: "jsstring \<Rightarrow> jsstring" where
  "trim s = trimEnd (trimStart s)"

text \<open>
  \<open>s.split(/c/g)\<close> for a pattern that is the one character \<open>c\<close>: the pieces between the
  occurrences of \<open>c\<close>, empty pieces included.
\<close>

fun split_on :: "jschar \<Rightarrow> jsstring \<Rightarrow> jsstring list" where
  "split_on c [] = [[]]"
| "split_on c (x # xs) =
     (if x = c then [] # split_on c xs
      else (case split_on c xs of [] \<Rightarrow> [[x]] | p # ps \<Rightarrow> (x # p) # ps))"

text \<open>\<open>ls.join(sep)\<close>.\<close>

fun join :: "jsstring \<Rightarrow> jsstring list \<Rightarrow> jsstring" where
  "join sep [] = []"
| "join sep [l] = l"
| "join sep (l # m # ls) = l @ sep @ join sep (m # ls)"

text \<open>
  \<open>parseInt(s, 10)\<close>: leading white space is skipped, a sign is read, then the longest run
  of decimal digits; with no digit the result is NaN, here \<open>None\<close>. The value is the exact
  integer: a double is exact up to \<open>2^53\<close>, and the rounding of longer numerals is not
  modelled.
\<close>

definition digitsValue :: "jsstring \<Rightarrow> int" where
  "digitsValue ds = foldl (\<lambda>acc d. 10 * acc + (int d - 48)) 0 ds"

definition parseInt :: "jsstring \<Rightarrow> int option" where
  "parseInt s =
     (let t = dropWhile isSpace s;
          neg = (t \<noteq> [] \<and> hd t = 45);
          u = (if t \<noteq> [] \<and> (hd t = 45 \<or> hd t = 43) then tl t else t);
          ds = takeWhile isDigit u
      in if ds = [] then None
         else Some (if neg then - digitsValue ds else digitsValue ds))"

text \<open>The decimal numeral of a counter, as a template literal prints it.\<close>

fun showNat :: "nat \<Rightarrow> jsstring" where
  "showNat n = (if n < 10 then [48 + n] else showNat (n div 10) @ [48 + n mod 10])"

declare showNat.simps [simp del]

text \<open>
  \<open>s.lastIndexOf(c, pos)\<close> for a one-character search string: the largest index
  \<open>j \<le> max pos 0\<close> with \<open>s[j] = c\<close>; \<open>None\<close> is JavaScript's \<open>-1\<close>.
\<close>

definition lastIndexOf :: "jschar \<Rightarrow> jsstring \<Rightarrow> int \<Rightarrow> nat option" where
  "lastIndexOf c s pos =
     (let pre = take (Suc (nat (max pos 0))) s
      in if c \<in> set pre then Some (length pre - Suc (length (takeWhile (\<lambda>x. x \<noteq> c) (rev pre))))
         else None)"

section \<open>Regular expressions\<close>

text \<open>
  The parsers are written with regular expressions, so the embedding has a backtracking
  matcher and each pattern of the source is a term of type \<open>regex\<close> that reads like the
  literal. Every quantifier in the source applies to a character class or to a single
  character, which is what the syntax below offers.
\<close>

datatype cset = Space | Digit | Word | OneOf "jschar list" | Neg cset | Either cset cset

fun in_cset :: "cset \<Rightarrow> jschar \<Rightarrow> bool" where
  "in_cset Space c = isSpace c"
| "in_cset Digit c = isDigit c"
| "in_cset Word c = isWord c"
| "in_cset (OneOf cs) c = (c \<in> set cs)"
| "in_cset (Neg k) c = (\<not> in_cset k c)"
| "in_cset (Either k l) c = (in_cset k c \<or> in_cset l c)"

text \<open>\<open>[\s\S]\<close>: any code unit.\<close>

definition AnyChar :: cset where
  "AnyChar = Either Space (Neg Space)"

datatype regex =
    Lit jsstring
  | Cls cset
  | Star cset
  | LazyStar cset
  | Plus cset
  | Opt regex
  | Seq regex regex
  | Alt regex regex
  | Cap nat regex
  | Bol
  | Eol
  | Wb

text \<open>
  A matcher state is the text already passed (reversed, so that its head is the previous
  character), the text still ahead, and the captures made so far, latest first.
\<close>

type_synonym mstate = "jsstring \<times> jsstring \<times> (nat \<times> jsstring) list"

text \<open>
  Flag \<open>i\<close>. Without flag \<open>u\<close> two code units match when their canonical forms agree, the
  canonical form being the upper case, except that a code unit from 128 on never maps
  below 128. Every literal in the patterns of the source is ASCII, and an ASCII pattern
  character then matches exactly itself and its other ASCII case.
\<close>

definition canon :: "jschar \<Rightarrow> jschar" where
  "canon c = (if 97 \<le> c \<and> c \<le> 122 then c - 32 else c)"

definition lit_at :: "bool \<Rightarrow> jsstring \<Rightarrow> jsstring \<Rightarrow> bool" where
  "lit_at ci l s = (if ci then prefix (map canon l) (map canon s) else prefix l s)"

text \<open>The ways a greedy and a lazy star can stop, in the order backtracking tries them.\<close>

fun star_greedy :: "cset \<Rightarrow> jsstring \<Rightarrow> jsstring \<Rightarrow> (jsstring \<times> jsstring) list" where
  "star_greedy k b [] = [(b, [])]"
| "star_greedy k b (x # xs) =
     (if in_cset k x then star_greedy k (x # b) xs else []) @ [(b, x # xs)]"

fun star_lazy :: "cset \<Rightarrow> jsstring \<Rightarrow> jsstring \<Rightarrow> (jsstring \<times> jsstring) list" where
  "star_lazy k b [] = [(b, [])]"
| "star_lazy k b (x # xs) =
     (b, x # xs) # (if in_cset k x then star_lazy k (x # b) xs else [])"

text \<open>
  Whether a text starts with a word character; asked of the reversed text behind and of
  the text ahead, it gives the two sides of \<open>\b\<close>.
\<close>

definition headIsWord :: "jsstring \<Rightarrow> bool" where
  "headIsWord b = (case b of [] \<Rightarrow> False | x # _ \<Rightarrow> isWord x)"

text \<open>
  \<open>rmatch ci r st\<close> lists every way \<open>r\<close> can match at \<open>st\<close>, in the order a backtracking
  matcher finds them; the match JavaScript reports is the first.
\<close>

fun rmatch :: "bool \<Rightarrow> regex \<Rightarrow> mstate \<Rightarrow> mstate list" where
  "rmatch ci (Lit l) (b, a, c) =
     (if lit_at ci l a then [(rev (take (length l) a) @ b, drop (length l) a, c)] else [])"
| "rmatch ci (Cls k) (b, a, c) =
     (case a of [] \<Rightarrow> [] | x # xs \<Rightarrow> if in_cset k x then [(x # b, xs, c)] else [])"
| "rmatch ci (Star k) (b, a, c) = map (\<lambda>(b', a'). (b', a', c)) (star_greedy k b a)"
| "rmatch ci (LazyStar k) (b, a, c) = map (\<lambda>(b', a'). (b', a', c)) (star_lazy k b a)"
| "rmatch ci (Plus k) (b, a, c) =
     (case a of [] \<Rightarrow> []
      | x # xs \<Rightarrow> if in_cset k x then map (\<lambda>(b', a'). (b', a', c)) (star_greedy k (x # b) xs)
                  else [])"
| "rmatch ci (Opt r) st = rmatch ci r st @ [st]"
| "rmatch ci (Seq r1 r2) st = concat (map (rmatch ci r2) (rmatch ci r1 st))"
| "rmatch ci (Alt r1 r2) st = rmatch ci r1 st @ rmatch ci r2 st"
| "rmatch ci (Cap n r) (b, a, c) =
     map (\<lambda>(b', a', c'). (b', a', (n, rev (take (length b' - length b) b')) # c'))
       (rmatch ci r (b, a, c))"
| "rmatch ci Bol (b, a, c) = (if b = [] then [(b, a, c)] else [])"
| "rmatch ci Eol (b, a, c) = (if a = [] then [(b, a, c)] else [])"
| "rmatch ci Wb (b, a, c) =
     (if headIsWord b \<noteq> headIsWord a then [(b, a, c)] else [])"

text \<open>
  The leftmost match at or after the current position: the index where it starts and
  the state where it ends.
\<close>

fun search :: "bool \<Rightarrow> regex \<Rightarrow> jsstring \<Rightarrow> jsstring \<Rightarrow> (nat \<times> mstate) option" where
  "search ci r b [] =
     (case rmatch ci r (b, [], []) of [] \<Rightarrow> None | m # _ \<Rightarrow> Some (length b, m))"
| "search ci r b (x # xs) =
     (case rmatch ci r (b, x # xs, []) of
        [] \<Rightarrow> search ci r (x # b) xs
      | m # _ \<Rightarrow> Some (length b, m))"

text \<open>\<open>s.match(re)\<close> and \<open>re.exec(s)\<close> for a pattern without flag \<open>g\<close>.\<close>

definition re_match :: "bool \<Rightarrow> regex \<Rightarrow> jsstring \<Rightarrow> (nat \<times> mstate) option" where
  "re_match ci r s = search ci r [] s"

definition m_index :: "nat \<times> mstate \<Rightarrow> nat" where
  "m_index m = fst m"

definition m_end :: "nat \<times> mstate \<Rightarrow> nat" where
  "m_end m = length (fst (snd m))"

text \<open>\<open>m[0]\<close>, the matched text.\<close>

definition m_text :: "nat \<times> mstate \<Rightarrow> jsstring" where
  "m_text m = rev (take (m_end m - m_index m) (fst (snd m)))"

text \<open>
  \<open>m[n]\<close>. No group of the patterns below sits under an alternative or a \<open>?\<close>, so every
  group takes part in every match; the empty string stands for \<open>undefined\<close>.
\<close>

definition grp :: "nat \<Rightarrow> nat \<times> mstate \<Rightarrow> jsstring" where
  "grp n m = (case map_of (snd (snd (snd m))) n of None \<Rightarrow> [] | Some g \<Rightarrow> g)"

text \<open>
  The loop \<open>while ((m = re.exec(s)) !== null)\<close> of a pattern with flag \<open>g\<close>, and
  \<open>s.match(re)\<close> with flag \<open>g\<close>: each search resumes where the last match ended. The
  test on the lengths makes the recursion well founded; the patterns used with it cannot
  match the empty string, so for them the test always succeeds (lemmas \<open>exec_all_progress\<close>
  and \<open>patterns_consuming\<close> below).
\<close>

function exec_all :: "bool \<Rightarrow> regex \<Rightarrow> jsstring \<Rightarrow> jsstring \<Rightarrow> (nat \<times> mstate) list" where
  "exec_all ci r b a =
     (case search ci r b a of
        None \<Rightarrow> []
      | Some m \<Rightarrow>
          if length (fst (snd (snd m))) < length a
          then m # exec_all ci r (fst (snd m)) (fst (snd (snd m)))
          else [m])"
  by pat_completeness auto
termination
  by (relation "measure (\<lambda>(ci, r, b, a). length a)") auto

declare exec_all.simps [simp del]

text \<open>\<open>s.replace(re, '')\<close> with flag \<open>g\<close>: the text outside the matches.\<close>

fun cut_spans :: "nat \<Rightarrow> jsstring \<Rightarrow> (nat \<times> mstate) list \<Rightarrow> jsstring" where
  "cut_spans p s [] = drop p s"
| "cut_spans p s (m # ms) = take (m_index m - p) (drop p s) @ cut_spans (m_end m) s ms"

definition remove_all :: "bool \<Rightarrow> regex \<Rightarrow> jsstring \<Rightarrow> jsstring" where
  "remove_all ci r s = cut_spans 0 s (exec_all ci r [] s)"

text \<open>\<open>s.replace(re, '')\<close> without flag \<open>g\<close>: the first match is cut out.\<close>

definition remove_first :: "bool \<Rightarrow> regex \<Rightarrow> jsstring \<Rightarrow> jsstring" where
  "remove_first ci r s =
     (case re_match ci r s of None \<Rightarrow> s | Some m \<Rightarrow> take (m_index m) s @ drop (m_end m) s)"

section \<open>The fact text parser\<close>

record KGNode =
  n_id :: jsstring
  n_type :: jsstring
  n_label :: jsstring
  n_url :: "jsstring option"
  n_page :: "jsstring option"
  n_attrs :: "(jsstring \<times> jsstring) list option"

record KGEdge =
  e_id :: jsstring
  e_source :: jsstring
  e_target :: jsstring
  e_label :: jsstring
  e_sources :: "jsstring list option"
  e_sourceIndices :: "int list option"

record ParsedFacts =
  pf_cleanText :: jsstring
  pf_nodes :: "KGNode list"
  pf_edges :: "KGEdge list"
  pf_types :: "jsstring list"
  pf_sourceIndexToUrl :: "(int \<times> jsstring) list"
  pf_preamble :: "jsstring option"

definition FACTS_LABEL :: jsstring where
  "FACTS_LABEL = js ''Retrieved Facts:''"

definition SOURCES_LABEL :: jsstring where
  "SOURCES_LABEL = js ''Sources:''"

text \<open>
  A \<open>Map\<close> keeps its keys in insertion order, and \<open>set\<close> on a key it has keeps the key's
  place: an association list under \<open>AList.update\<close>. The guarded insertion
  \<open>if (!m.has(k)) m.set(k, v)\<close> is \<open>setIfAbsent\<close>.
\<close>

definition setIfAbsent :: "'k \<Rightarrow> 'v \<Rightarrow> ('k \<times> 'v) list \<Rightarrow> ('k \<times> 'v) list" where
  "setIfAbsent k v m = (if map_of m k = None then m @ [(k, v)] else m)"

text \<open>
  \<open>attrs[key] = value\<close> on an object literal. The key \<open>__proto__\<close> reaches the setter of
  \<open>Object.prototype\<close>, which ignores a string, so no property appears. The order of the
  keys is the order of insertion (integer-like keys apart, which no reader here observes).
\<close>

definition obj_set :: "jsstring \<Rightarrow> jsstring \<Rightarrow> (jsstring \<times> jsstring) list \<Rightarrow> (jsstring \<times> jsstring) list" where
  "obj_set k v attrs = (if k = js ''__proto__'' then attrs else AList.update k v attrs)"

definition makeNodeId :: "jsstring \<Rightarrow> jsstring \<Rightarrow> jsstring" where
  "makeNodeId typeName label = typeName @ js '':'' @ label"

text \<open>\<open>/\b([A-Za-z0-9_]+):"([^"]+)"/\<close>, used once without and once with flag \<open>g\<close>.\<close>

definition typeLabelRegex :: regex where
  "typeLabelRegex =
     Seq Wb (Seq (Cap 1 (Plus Word)) (Seq (Lit [58, 34]) (Seq (Cap 2 (Plus (Neg (OneOf [34])))) (Lit [34]))))"

text \<open>\<open>/\b([A-Za-z0-9_]+)=([^\s)]+)/g\<close>\<close>

definition keyValueRegex :: regex where
  "keyValueRegex =
     Seq Wb (Seq (Cap 1 (Plus Word)) (Seq (Lit (js ''='')) (Cap 2 (Plus (Neg (Either Space (OneOf (js '')''))))))))"

definition parseEntity :: "jsstring \<Rightarrow> KGNode option" where
  "parseEntity raw =
     (let tl = re_match False typeLabelRegex raw;
          typeName = (case tl of None \<Rightarrow> [] | Some m \<Rightarrow> grp 1 m);
          label = (case tl of None \<Rightarrow> [] | Some m \<Rightarrow> grp 2 m);
          attrs1 = fold (\<lambda>m attrs. obj_set (grp 1 m) (grp 2 m) attrs)
                     (exec_all False keyValueRegex [] raw) [];
          attrs = fold (\<lambda>m attrs. if grp 1 m = typeName \<and> grp 2 m = label then attrs
                                   else obj_set (grp 1 m) (grp 2 m) attrs)
                    (exec_all False typeLabelRegex [] raw) attrs1
      in if typeName = [] \<or> label = [] then None
         else Some \<lparr> n_id = makeNodeId typeName label, n_type = typeName, n_label = label,
                     n_url = map_of attrs (js ''url''), n_page = map_of attrs (js ''page''),
                     n_attrs = (if attrs = [] then None else Some attrs) \<rparr>)"

text \<open>\<open>/\[(\d+)\]\s*(\S+)/g\<close>\<close>

definition sourceEntryRegex :: regex where
  "sourceEntryRegex =
     Seq (Lit (js ''['')) (Seq (Cap 1 (Plus Digit)) (Seq (Lit (js '']'')) (Seq (Star Space) (Cap 2 (Plus (Neg Space))))))"

definition parseSourcesMap :: "jsstring option \<Rightarrow> (int \<times> jsstring) list" where
  "parseSourcesMap sourcesBlock =
     (case sourcesBlock of
        None \<Rightarrow> []
      | Some sb \<Rightarrow>
          if sb = [] then []
          else fold (\<lambda>m mp. case parseInt (grp 1 m) of
                               None \<Rightarrow> mp
                             | Some idx \<Rightarrow> if grp 2 m = [] then mp else AList.update idx (grp 2 m) mp)
                 (exec_all False sourceEntryRegex [] sb) [])"

text \<open>\<open>/\[(\d+)\]/g\<close>\<close>

definition sourceIdxRegex :: regex where
  "sourceIdxRegex = Seq (Lit (js ''['')) (Seq (Cap 1 (Plus Digit)) (Lit (js '']'')))"

text \<open>
  \<open>/[\\[\\]]/g\<close>: the class holds the backslash and the opening bracket and is closed by
  the first \<open>]\<close>; the second \<open>]\<close> is a literal character after the class.
\<close>

definition bracketRegex :: regex where
  "bracketRegex = Seq (Cls (OneOf [92, 91, 92])) (Lit (js '']''))"

text \<open>\<open>/\(([^)]+)\)\s*-\[([^\]]+)\]->\s*\(([^)]+)\)/\<close>\<close>

definition tripleRegex :: regex where
  "tripleRegex =
     Seq (Lit (js ''('')) (Seq (Cap 1 (Plus (Neg (OneOf (js '')''))))) (Seq (Lit (js '')''))
    (Seq (Star Space) (Seq (Lit (js ''-'')) (Seq (Lit (js ''['')) (Seq (Cap 2 (Plus (Neg (OneOf (js '']'')))))
    (Seq (Lit (js '']'')) (Seq (Lit (js ''->'')) (Seq (Star Space) (Seq (Lit (js ''(''))
    (Seq (Cap 3 (Plus (Neg (OneOf (js '')''))))) (Lit (js '')'')))))))))))))"

text \<open>
  The state of the loop over the bullets: the node table, the edges so far, the edge
  counter.
\<close>

type_synonym bullets_state = "(jsstring \<times> KGNode) list \<times> KGEdge list \<times> nat"

text \<open>
  What one bullet contributes when it is well formed: the two entities, the relation
  and the citations. \<open>None\<close> is the \<open>continue\<close> of the loop.
\<close>

definition parseBullet ::
  "(int \<times> jsstring) list \<Rightarrow> jsstring \<Rightarrow> (KGNode \<times> KGNode \<times> jsstring \<times> jsstring list \<times> int list) option" where
  "parseBullet sourceIndexToUrlMap item =
     (let sourceIdxMatches = map m_text (exec_all False sourceIdxRegex [] item);
          edgeSources = List.map_filter
             (\<lambda>m. case parseInt (remove_all False bracketRegex m) of
                     None \<Rightarrow> None
                   | Some idx \<Rightarrow> (case map_of sourceIndexToUrlMap idx of
                                    None \<Rightarrow> None
                                  | Some u \<Rightarrow> if u = [] then None else Some u))
             sourceIdxMatches;
          edgeSourceIndices = List.map_filter (\<lambda>m. parseInt (filter isDigit m)) sourceIdxMatches
      in case re_match False tripleRegex item of
           None \<Rightarrow> None
         | Some tm \<Rightarrow>
             (case parseEntity (grp 1 tm) of
                None \<Rightarrow> None
              | Some left \<Rightarrow>
                  (case parseEntity (grp 3 tm) of
                     None \<Rightarrow> None
                   | Some right \<Rightarrow> Some (left, right, trim (grp 2 tm), edgeSources, edgeSourceIndices))))"

definition bulletStep :: "(int \<times> jsstring) list \<Rightarrow> jsstring \<Rightarrow> bullets_state \<Rightarrow> bullets_state" where
  "bulletStep sourceIndexToUrlMap item st =
     (case st of (nodesById, es, edgeCounter) \<Rightarrow>
        (case parseBullet sourceIndexToUrlMap item of
           None \<Rightarrow> st
         | Some (left, right, relation, edgeSources, edgeSourceIndices) \<Rightarrow>
             (let leftId = makeNodeId (n_type left) (n_label left);
                  rightId = makeNodeId (n_type right) (n_label right);
                  nodesById1 = setIfAbsent leftId left nodesById;
                  nodesById2 = setIfAbsent rightId right nodesById1;
                  edge = \<lparr> e_id = js ''e_'' @ showNat edgeCounter, e_source = leftId,
                           e_target = rightId, e_label = relation,
                           e_sources = (if edgeSources = [] then None else Some edgeSources),
                           e_sourceIndices = (if edgeSourceIndices = [] then None
                                              else Some edgeSourceIndices) \<rparr>
              in (nodesById2, es @ [edge], Suc edgeCounter))))"

definition rawItems :: "jsstring \<Rightarrow> jsstring list" where
  "rawItems factsBlock = filter (\<lambda>s. s \<noteq> []) (map trim (split_on 8226 factsBlock))"

definition parseFactsBullets :: "jsstring \<Rightarrow> (int \<times> jsstring) list \<Rightarrow> KGNode list \<times> KGEdge list" where
  "parseFactsBullets factsBlock sourceIndexToUrlMap =
     (case fold (bulletStep sourceIndexToUrlMap) (rawItems factsBlock) ([], [], 0) of
        (nodesById, es, _) \<Rightarrow> (map snd nodesById, es))"

text \<open>
  \<open>Retrieved Facts:\s*([\s\S]*?)(?:\n\s*Sources:|Sources:|$)\<close> with flag \<open>i\<close>;
  \<open>escapeRegExp\<close> leaves both labels as they are, they hold no special character.
\<close>

definition factsRegex :: regex where
  "factsRegex =
     Seq (Lit FACTS_LABEL) (Seq (Star Space) (Seq (Cap 1 (LazyStar AnyChar))
       (Alt (Seq (Lit [10]) (Seq (Star Space) (Lit SOURCES_LABEL))) (Alt (Lit SOURCES_LABEL) Eol))))"

text \<open>\<open>Sources:\s*([\s\S]*)$\<close> with flag \<open>i\<close>\<close>

definition sourcesRegex :: regex where
  "sourcesRegex = Seq (Lit SOURCES_LABEL) (Seq (Star Space) (Seq (Cap 1 (Star AnyChar)) Eol))"

text \<open>\<open>\n?\s*Sources:[\s\S]*$\<close> with flag \<open>i\<close>\<close>

definition sourcesOnlyRegex :: regex where
  "sourcesOnlyRegex =
     Seq (Opt (Lit [10])) (Seq (Star Space) (Seq (Lit SOURCES_LABEL) (Seq (Star AnyChar) Eol)))"

definition extractBlocks :: "jsstring \<Rightarrow> jsstring option \<times> jsstring option \<times> jsstring" where
  "extractBlocks input =
     (let factsMatch = re_match True factsRegex input;
          factsBlock = (case factsMatch of None \<Rightarrow> None | Some m \<Rightarrow> Some (trim (grp 1 m)));
          sourcesBlock =
            (case factsMatch of
               Some m \<Rightarrow>
                 (let remainderAfterFactsIndex = m_index m + length (m_text m);
                      afterFacts = drop (remainderAfterFactsIndex - length (grp 1 m)) input
                  in case re_match True sourcesRegex afterFacts of
                       None \<Rightarrow> None
                     | Some sm \<Rightarrow> Some (trim (grp 1 sm)))
             | None \<Rightarrow>
                 (case re_match True sourcesRegex input of
                    None \<Rightarrow> None
                  | Some sm \<Rightarrow> Some (trim (grp 1 sm))));
          cleanText =
            (case factsMatch of
               Some m \<Rightarrow>
                 (let startIdx = m_index m;
                      lineStart = lastIndexOf 10 input (int startIdx - 1);
                      start = (case lineStart of None \<Rightarrow> 0 | Some j \<Rightarrow> j + 1)
                  in trimEnd (take start input))
             | None \<Rightarrow>
                 (if sourcesBlock \<noteq> None \<and> sourcesBlock \<noteq> Some []
                  then trimEnd (remove_first True sourcesOnlyRegex input)
                  else input))
      in (factsBlock, sourcesBlock, cleanText))"

text \<open>\<open>/(?:^|\n)Chat Response:\s*/i\<close>\<close>

definition chatResponseRegex :: regex where
  "chatResponseRegex = Seq (Alt Bol (Lit [10])) (Seq (Lit (js ''Chat Response:'')) (Star Space))"

text \<open>
  \<open>Array.from(new Set(xs)).sort()\<close>: the distinct strings, in the order of their code
  units.
\<close>

definition sortedDistinct :: "jsstring list \<Rightarrow> jsstring list" where
  "sortedDistinct xs = sort (remdups xs)"

definition truthy :: "jsstring option \<Rightarrow> bool" where
  "truthy s = (s \<noteq> None \<and> s \<noteq> Some [])"

text \<open>
  The text before the \<open>Chat Response:\<close> marker, trimmed, and the text after the marker;
  without the marker there is no preamble and the whole input is parsed for facts.
\<close>

definition preambleOf :: "jsstring \<Rightarrow> jsstring option" where
  "preambleOf input =
     (case re_match True chatResponseRegex input of
        None \<Rightarrow> None
      | Some m \<Rightarrow> Some (trim (take (m_index m) input)))"

definition contentForFacts :: "jsstring \<Rightarrow> jsstring" where
  "contentForFacts input =
     (case re_match True chatResponseRegex input of
        None \<Rightarrow> input
      | Some m \<Rightarrow> drop (m_index m + length (m_text m)) input)"

definition parseRetrievedFacts :: "jsstring \<Rightarrow> ParsedFacts option" where
  "parseRetrievedFacts input =
     (if input = [] then None
      else
        (case extractBlocks (contentForFacts input) of
           (factsBlock, sourcesBlock, clean) \<Rightarrow>
             (let sourceIndexToUrlMap = parseSourcesMap sourcesBlock;
                  parsed = (if truthy factsBlock
                            then parseFactsBullets (the factsBlock) sourceIndexToUrlMap
                            else ([], []));
                  ts = sortedDistinct (map n_type (fst parsed));
                  hasFactsOrSources = (truthy factsBlock \<or> truthy sourcesBlock)
              in if \<not> truthy (preambleOf input) \<and> \<not> hasFactsOrSources then None
                 else Some \<lparr> pf_cleanText = clean, pf_nodes = fst parsed,
                             pf_edges = snd parsed, pf_types = ts,
                             pf_sourceIndexToUrl = sourceIndexToUrlMap,
                             pf_preamble = preambleOf input \<rparr>)))"

text \<open>
  A marker occurs in a text, letter case aside: the reading of ``the input contains the
  marker'' that flag \<open>i\<close> gives.
\<close>

definition containsCI :: "jsstring \<Rightarrow> jsstring \<Rightarrow> bool" where
  "containsCI l s = sublist (map canon l) (map canon s)"

section \<open>The grouped facts-preview parser\<close>

text \<open>\<open>/\(\s*([A-Za-z0-9_]+)\s*:\s*"([^"]+)"[^)]*\)/\<close>\<close>

definition groupedEntityRegex :: regex where
  "groupedEntityRegex =
     Seq (Lit (js ''('')) (Seq (Star Space) (Seq (Cap 1 (Plus Word)) (Seq (Star Space)
    (Seq (Lit (js '':'')) (Seq (Star Space) (Seq (Lit [34]) (Seq (Cap 2 (Plus (Neg (OneOf [34]))))
    (Seq (Lit [34]) (Seq (Star (Neg (OneOf (js '')'')))) (Lit (js '')'')))))))))))"

text \<open>\<open>/^-+\s*\[([^\]]+)\]->\s*\(([^)]+)\)/\<close>\<close>

definition outwardRegex :: regex where
  "outwardRegex =
     Seq Bol (Seq (Plus (OneOf (js ''-''))) (Seq (Star Space) (Seq (Lit (js ''[''))
    (Seq (Cap 1 (Plus (Neg (OneOf (js '']''))))) (Seq (Lit (js '']->'')) (Seq (Star Space)
    (Seq (Lit (js ''('')) (Seq (Cap 2 (Plus (Neg (OneOf (js '')''))))) (Lit (js '')''))))))))))"

text \<open>\<open>/^<-\s*\[([^\]]+)\]-\s*\(([^)]+)\)/\<close>\<close>

definition inwardRegex :: regex where
  "inwardRegex =
     Seq Bol (Seq (Lit (js ''<-'')) (Seq (Star Space) (Seq (Lit (js ''[''))
    (Seq (Cap 1 (Plus (Neg (OneOf (js '']''))))) (Seq (Lit (js '']-'')) (Seq (Star Space)
    (Seq (Lit (js ''('')) (Seq (Cap 2 (Plus (Neg (OneOf (js '')''))))) (Lit (js '')''))))))))))"

record grouped_state =
  g_nodesById :: "(jsstring \<times> KGNode) list"
  g_edges :: "KGEdge list"
  g_edgeCounter :: nat
  g_currentCentral :: "KGNode option"

text \<open>
  The inner \<open>parseEntity\<close> of the grouped parser looks the node up in the table and enters
  it when it is new, so it returns the table too.
\<close>

text \<open>The node literal \<open>{ id, type: typeName, label }\<close>.\<close>

definition plainNode :: "jsstring \<Rightarrow> jsstring \<Rightarrow> KGNode" where
  "plainNode typeName label =
     \<lparr> n_id = makeNodeId typeName label, n_type = typeName, n_label = label, n_url = None,
       n_page = None, n_attrs = None \<rparr>"

definition parseEntityG ::
  "(jsstring \<times> KGNode) list \<Rightarrow> jsstring \<Rightarrow> KGNode option \<times> (jsstring \<times> KGNode) list" where
  "parseEntityG nodesById raw =
     (case re_match False groupedEntityRegex raw of
        None \<Rightarrow> (None, nodesById)
      | Some m \<Rightarrow>
          (let typeName = grp 1 m; label = grp 2 m; i = makeNodeId typeName label
           in case map_of nodesById i of
                Some node \<Rightarrow> (Some node, nodesById)
              | None \<Rightarrow>
                  (let node = plainNode typeName label
                   in (Some node, nodesById @ [(i, node)]))))"

definition extractSourceIndices :: "jsstring \<Rightarrow> int list" where
  "extractSourceIndices s =
     List.map_filter (\<lambda>m. parseInt (filter isDigit m))
       (map m_text (exec_all False sourceIdxRegex [] s))"

text \<open>
  The edge the three relation branches build: the citation indices of the line, and the
  URLs the source table has for them (\<open>filter(Boolean)\<close> drops a missing or empty URL).
\<close>

definition groupedEdge ::
  "(int \<times> jsstring) list \<Rightarrow> nat \<Rightarrow> jsstring \<Rightarrow> jsstring \<Rightarrow> jsstring \<Rightarrow> jsstring \<Rightarrow> KGEdge" where
  "groupedEdge sourceIndexToUrl edgeCounter src tgt rel line =
     (let idxs = extractSourceIndices line;
          urls = List.map_filter
                   (\<lambda>i. case map_of sourceIndexToUrl i of
                           None \<Rightarrow> None
                         | Some u \<Rightarrow> if u = [] then None else Some u) idxs
      in \<lparr> e_id = js ''e_'' @ showNat edgeCounter, e_source = src, e_target = tgt, e_label = rel,
            e_sources = (if idxs \<noteq> [] \<and> urls \<noteq> [] then Some urls else None),
            e_sourceIndices = (if idxs \<noteq> [] then Some idxs else None) \<rparr>)"

definition startsWith :: "jsstring \<Rightarrow> jsstring \<Rightarrow> bool" where
  "startsWith s p = prefix p s"

text \<open>One turn of the loop over the lines; each \<open>continue\<close> is a branch that returns.\<close>

definition groupedStep :: "(int \<times> jsstring) list \<Rightarrow> jsstring \<Rightarrow> grouped_state \<Rightarrow> grouped_state" where
  "groupedStep sourceIndexToUrl rawLine st =
     (let line = trim rawLine
      in if line = [] then st
         else if startsWith line (js ''('') then
           (case parseEntityG (g_nodesById st) line of
              (None, nb) \<Rightarrow> st \<lparr> g_nodesById := nb \<rparr>
            | (Some node, nb) \<Rightarrow> st \<lparr> g_nodesById := nb, g_currentCentral := Some node \<rparr>)
         else
           (case re_match False tripleRegex line of
              Some triple \<Rightarrow>
                (case parseEntityG (g_nodesById st) (js ''('' @ grp 1 triple @ js '')'') of
                   (left, nb1) \<Rightarrow>
                     (case parseEntityG nb1 (js ''('' @ grp 3 triple @ js '')'') of
                        (right, nb2) \<Rightarrow>
                          (case (left, right) of
                             (Some l, Some r) \<Rightarrow>
                               st \<lparr> g_nodesById := nb2,
                                    g_edges := g_edges st @
                                      [groupedEdge sourceIndexToUrl (g_edgeCounter st) (n_id l) (n_id r)
                                         (trim (grp 2 triple)) line],
                                    g_edgeCounter := Suc (g_edgeCounter st) \<rparr>
                           | _ \<Rightarrow> st \<lparr> g_nodesById := nb2 \<rparr>)))
            | None \<Rightarrow>
                (case (re_match False outwardRegex line, g_currentCentral st) of
                   (Some outward, Some central) \<Rightarrow>
                     (case parseEntityG (g_nodesById st) (js ''('' @ grp 2 outward @ js '')'') of
                        (Some right, nb) \<Rightarrow>
                          st \<lparr> g_nodesById := nb,
                               g_edges := g_edges st @
                                 [groupedEdge sourceIndexToUrl (g_edgeCounter st) (n_id central) (n_id right)
                                    (trim (grp 1 outward)) line],
                               g_edgeCounter := Suc (g_edgeCounter st) \<rparr>
                      | (None, nb) \<Rightarrow> st \<lparr> g_nodesById := nb \<rparr>)
                 | _ \<Rightarrow>
                     (case (re_match False inwardRegex line, g_currentCentral st) of
                        (Some inward, Some central) \<Rightarrow>
                          (case parseEntityG (g_nodesById st) (js ''('' @ grp 2 inward @ js '')'') of
                             (Some left, nb) \<Rightarrow>
                               st \<lparr> g_nodesById := nb,
                                    g_edges := g_edges st @
                                      [groupedEdge sourceIndexToUrl (g_edgeCounter st) (n_id left) (n_id central)
                                         (trim (grp 1 inward)) line],
                                    g_edgeCounter := Suc (g_edgeCounter st) \<rparr>
                           | (None, nb) \<Rightarrow> st \<lparr> g_nodesById := nb \<rparr>)
                      | _ \<Rightarrow> st))))"

definition groupedInit :: grouped_state where
  "groupedInit = \<lparr> g_nodesById = [], g_edges = [], g_edgeCounter = 0, g_currentCentral = None \<rparr>"

definition parseFactsPreviewGrouped ::
  "jsstring list \<Rightarrow> (int \<times> jsstring) list \<Rightarrow> KGNode list \<times> KGEdge list \<times> jsstring list" where
  "parseFactsPreviewGrouped lines sourceIndexToUrl =
     (let st = fold (groupedStep sourceIndexToUrl) lines groupedInit;
          ns = map snd (g_nodesById st)
      in (ns, g_edges st, sortedDistinct (map n_type ns)))"

section \<open>The response normalizer\<close>

record Finding =
  f_title :: "jsstring option"
  f_url :: jsstring
  f_snippet :: jsstring

record SuggestedAction =
  a_action :: jsstring
  a_description :: jsstring

record StructuredResponse =
  Research_targets :: "jsstring list"
  Research_findings :: "Finding list"
  Chat_Response :: jsstring
  Suggested_Actions :: "SuggestedAction list"

record SourceRef =
  s_id :: int
  s_url :: jsstring

record StructuredParsedResponse =
  sp_chatResponse :: jsstring
  sp_researchTargets :: "jsstring list"
  sp_researchFindings :: "Finding list"
  sp_suggestedActions :: "SuggestedAction list"
  sp_nodes :: "KGNode list"
  sp_edges :: "KGEdge list"
  sp_types :: "jsstring list"
  sp_sourceIndexToUrl :: "(int \<times> jsstring) list"
  sp_preamble :: "jsstring option"
  sp_hasStructuredData :: bool

definition sourceTable :: "SourceRef list \<Rightarrow> (int \<times> jsstring) list" where
  "sourceTable sources = fold (\<lambda>source m. AList.update (s_id source) (s_url source) m) sources []"

text \<open>
  The holders \<open>kgData\<close>, \<open>nodes\<close>, \<open>edges\<close>, \<open>types\<close> and \<open>preamble\<close> after the two attempts
  with the fact text parser (on the answer text, then on the facts preview joined by
  newlines) and the grouped fallback, which leaves \<open>kgData\<close> null.
\<close>

definition structuredHolders ::
  "jsstring \<Rightarrow> (int \<times> jsstring) list \<Rightarrow> jsstring list option \<Rightarrow>
     ParsedFacts option \<times> KGNode list \<times> KGEdge list \<times> jsstring list \<times> jsstring option" where
  "structuredHolders chat sourceIndexToUrl factsPreview =
     (case (if chat \<noteq> [] then parseRetrievedFacts chat else None) of
        Some kg \<Rightarrow> (Some kg, pf_nodes kg, pf_edges kg, pf_types kg, pf_preamble kg)
      | None \<Rightarrow>
          (case factsPreview of
             None \<Rightarrow> (None, [], [], [], None)
           | Some fp \<Rightarrow>
               if fp = [] then (None, [], [], [], None)
               else (case parseRetrievedFacts (join [10] fp) of
                       Some kg \<Rightarrow> (Some kg, pf_nodes kg, pf_edges kg, pf_types kg, pf_preamble kg)
                     | None \<Rightarrow>
                         (case parseFactsPreviewGrouped fp sourceIndexToUrl of
                            (ns, es, ts) \<Rightarrow> (None, ns, es, ts, None)))))"

text \<open>\<open>kgData?.cleanText || Chat_Response\<close>: an empty clean text is falsy.\<close>

definition cleanTextOr :: "ParsedFacts option \<Rightarrow> jsstring \<Rightarrow> jsstring" where
  "cleanTextOr kgData chat =
     (case kgData of None \<Rightarrow> chat | Some kg \<Rightarrow> if pf_cleanText kg \<noteq> [] then pf_cleanText kg else chat)"

definition parseStructuredGraphRAGResponse ::
  "StructuredResponse \<Rightarrow> SourceRef list \<Rightarrow> jsstring list option \<Rightarrow> StructuredParsedResponse" where
  "parseStructuredGraphRAGResponse structuredResponse sources factsPreview =
     (let sourceIndexToUrl = sourceTable sources
      in case structuredHolders (Chat_Response structuredResponse) sourceIndexToUrl factsPreview of
           (kgData, ns, es, ts, pre) \<Rightarrow>
             \<lparr> sp_chatResponse = cleanTextOr kgData (Chat_Response structuredResponse),
               sp_researchTargets = Research_targets structuredResponse,
               sp_researchFindings = Research_findings structuredResponse,
               sp_suggestedActions = Suggested_Actions structuredResponse,
               sp_nodes = ns, sp_edges = es, sp_types = ts,
               sp_sourceIndexToUrl = sourceIndexToUrl,
               sp_preamble = pre,
               sp_hasStructuredData = True \<rparr>)"

section \<open>The filter controller of the graph viewer\<close>

text \<open>
  \<open>degreeMap\<close>: every node id starts at 0, and every edge adds one at its source and one at
  its target, whether or not the id belongs to a node.
\<close>

definition degreeOf :: "(jsstring \<times> nat) list \<Rightarrow> jsstring \<Rightarrow> nat" where
  "degreeOf m i = (case map_of m i of None \<Rightarrow> 0 | Some d \<Rightarrow> d)"

definition bumpDegree :: "jsstring \<Rightarrow> (jsstring \<times> nat) list \<Rightarrow> (jsstring \<times> nat) list" where
  "bumpDegree i m = AList.update i (degreeOf m i + 1) m"

definition degreeMap :: "KGNode list \<Rightarrow> KGEdge list \<Rightarrow> (jsstring \<times> nat) list" where
  "degreeMap ns es =
     fold (\<lambda>e m. bumpDegree (e_target e) (bumpDegree (e_source e) m)) es
       (fold (\<lambda>n m. AList.update (n_id n) 0 m) ns [])"

record FilterState =
  selectedEntityTypes :: "jsstring set"
  selectedRelationTypes :: "jsstring set"
  searchTerm :: jsstring
  minDegree :: nat
  maxDegree :: enat
  showIsolates :: bool

text \<open>\<open>hay.includes(needle)\<close>\<close>

definition str_includes :: "jsstring \<Rightarrow> jsstring \<Rightarrow> bool" where
  "str_includes hay needle = sublist needle hay"

text \<open>
  The predicate of \<open>nodes.filter\<close>, one early return after the other.
  \<open>String.prototype.toLowerCase\<close> follows the Unicode case tables, which are not part of
  the repository: it is the parameter \<open>lc\<close>.
\<close>

definition nodeVisible ::
  "(jsstring \<Rightarrow> jsstring) \<Rightarrow> FilterState \<Rightarrow> (jsstring \<times> nat) list \<Rightarrow> KGNode \<Rightarrow> bool" where
  "nodeVisible lc fs dm n =
     (if selectedEntityTypes fs \<noteq> {} \<and> n_type n \<notin> selectedEntityTypes fs then False
      else if searchTerm fs \<noteq> [] \<and> \<not> str_includes (lc (n_label n)) (lc (searchTerm fs)) then False
      else (let degree = degreeOf dm (n_id n)
            in if degree < minDegree fs \<or> enat degree > maxDegree fs then False
               else if \<not> showIsolates fs \<and> degree = 0 then False
               else True))"

definition edgeVisible :: "FilterState \<Rightarrow> jsstring set \<Rightarrow> KGEdge \<Rightarrow> bool" where
  "edgeVisible fs nodeIds e =
     (if e_source e \<notin> nodeIds \<or> e_target e \<notin> nodeIds then False
      else if selectedRelationTypes fs \<noteq> {} \<and> e_label e \<notin> selectedRelationTypes fs then False
      else True)"

record ViewerState =
  v_degreeMap :: "(jsstring \<times> nat) list"
  v_isolatesCount :: nat
  v_relationTypes :: "jsstring list"
  v_maxDegreeValue :: nat
  v_filteredNodes :: "KGNode list"
  v_filteredEdges :: "KGEdge list"

text \<open>
  What one render of \<open>KnowledgeGraphViewer\<close> derives from its props (\<open>nodes\<close>, \<open>edges\<close>) and
  its filter state: the first \<open>useMemo\<close> gives the degree statistics, the second the
  visible nodes and edges.
\<close>

definition KnowledgeGraphViewer ::
  "(jsstring \<Rightarrow> jsstring) \<Rightarrow> KGNode list \<Rightarrow> KGEdge list \<Rightarrow> FilterState \<Rightarrow> ViewerState" where
  "KnowledgeGraphViewer lc ns es fs =
     (let m = degreeMap ns es;
          iso = length (filter (\<lambda>v. v = 0) (map snd m));
          maxDeg = fold max (map snd m) 0;
          relationTypes = sortedDistinct (map e_label es);
          filteredNodes = filter (nodeVisible lc fs m) ns;
          nodeIds = set (map n_id filteredNodes);
          filteredEdges = filter (edgeVisible fs nodeIds) es
      in \<lparr> v_degreeMap = m, v_isolatesCount = iso, v_relationTypes = relationTypes,
            v_maxDegreeValue = maxDeg, v_filteredNodes = filteredNodes,
            v_filteredEdges = filteredEdges \<rparr>)"

text \<open>ASCII lower case, the restriction of \<open>toLowerCase\<close> to ASCII text.\<close>

definition asciiLower :: "jsstring \<Rightarrow> jsstring" where
  "asciiLower s = map (\<lambda>c. if 65 \<le> c \<and> c \<le> 90 then c + 32 else c) s"


section \<open>Canvas dimensions\<close>

text \<open>
  \<open>calculateDimensions\<close> computes in IEEE doubles. Each arithmetic operation is the exact
  real operation followed by rounding; the rounding is the parameter \<open>rnd\<close>, of which the
  theorem below needs only that it is monotone and leaves 0 and 1 alone, as rounding to
  nearest does. The integer constants are doubles; \<open>0.7\<close> is not, and stands for its
  rounding. \<open>Math.max\<close> returns one of its arguments.
\<close>

record Dimensions =
  nodeW :: real
  nodeH :: real
  canvasSize :: real

definition calculateDimensions :: "(real \<Rightarrow> real) \<Rightarrow> nat \<Rightarrow> Dimensions" where
  "calculateDimensions rnd nodeCount =
     (let baseNodeW = 120;
          baseNodeH = 32;
          scaleFactor = (if nodeCount > 50
                         then max (rnd 0.7) (rnd (1 - rnd (rnd (real nodeCount - 50) / 200)))
                         else 1);
          w = max 80 (rnd (baseNodeW * scaleFactor));
          h = max 24 (rnd (baseNodeH * scaleFactor));
          baseSize = 800;
          sizeMultiplier = rnd (sqrt (rnd (real nodeCount / 10)));
          cs = max baseSize (rnd (baseSize * sizeMultiplier))
      in \<lparr> nodeW = w, nodeH = h, canvasSize = cs \<rparr>)"

section \<open>The force-directed layout\<close>















section \<open>Vocabulary of the properties\<close>

text \<open>
  The entities the well-formed bullets mention, in the order of the text: two for each
  bullet that \<open>parseBullet\<close> accepts.
\<close>

definition entityOccurrences :: "(int \<times> jsstring) list \<Rightarrow> jsstring list \<Rightarrow> KGNode list" where
  "entityOccurrences srcs items =
     concat (map (\<lambda>item. case parseBullet srcs item of
                             None \<Rightarrow> []
                           | Some (left, right, _) \<Rightarrow> [left, right]) items)"

text \<open>
  The invariant of the node table along the loop over the bullets: its keys are distinct,
  each key is the id of its node, each node is the first of the occurrences so far that
  has its id, and the keys are exactly the ids that occurred.
\<close>

definition nodes_inv :: "(jsstring \<times> KGNode) list \<Rightarrow> KGNode list \<Rightarrow> bool" where
  "nodes_inv nb occs \<longleftrightarrow>
     distinct (map fst nb)
   \<and> (\<forall>(k, n) \<in> set nb. k = n_id n \<and> find (\<lambda>e. n_id e = k) occs = Some n)
   \<and> fst ` set nb = n_id ` set occs"

text \<open>A pattern is consuming when each of its matches takes at least one character.\<close>

definition consuming :: "bool \<Rightarrow> regex \<Rightarrow> bool" where
  "consuming ci r \<longleftrightarrow>
     (\<forall>b a c b' a' c'. (b', a', c') \<in> set (rmatch ci r (b, a, c)) \<longrightarrow> length a' < length a)"

text \<open>
  The entity occurrences of an input: those of the bullets of its facts block, read with
  the source table of its sources block; none when the facts block is absent or empty.
\<close>

definition occurrencesOf :: "jsstring \<Rightarrow> KGNode list" where
  "occurrencesOf input =
     (case extractBlocks (contentForFacts input) of
        (factsBlock, sourcesBlock, _) \<Rightarrow>
          if truthy factsBlock
          then entityOccurrences (parseSourcesMap sourcesBlock) (rawItems (the factsBlock))
          else [])"

text \<open>
  The input read as a text, without the patterns. \<open>afterMarker l s\<close> is the text after the
  first place where \<open>s\<close> continues with the label \<open>l\<close>, letter case aside.
\<close>

fun afterMarker :: "jsstring \<Rightarrow> jsstring \<Rightarrow> jsstring option" where
  "afterMarker l [] = None"
| "afterMarker l (x # xs) =
     (if lit_at True l (x # xs) then Some (drop (length l) (x # xs)) else afterMarker l xs)"

text \<open>
  \<open>chatSplit True s\<close> is the text before and the text after the first label
  \<open>Chat Response:\<close> that stands at the start of \<open>s\<close> or right after a line feed; the line
  feed belongs to neither part.
\<close>

fun chatSplit :: "bool \<Rightarrow> jsstring \<Rightarrow> (jsstring \<times> jsstring) option" where
  "chatSplit atStart [] = None"
| "chatSplit atStart (x # xs) =
     (if atStart \<and> lit_at True (js ''Chat Response:'') (x # xs) then Some ([], drop 14 (x # xs))
      else if x = 10 \<and> lit_at True (js ''Chat Response:'') xs then Some ([], drop 14 xs)
      else (case chatSplit False xs of
              None \<Rightarrow> None
            | Some (pre, post) \<Rightarrow> Some (x # pre, post)))"

text \<open>There is preamble content: the text before the chat marker is not blank.\<close>

definition hasPreamble :: "jsstring \<Rightarrow> bool" where
  "hasPreamble input =
     (case chatSplit True input of None \<Rightarrow> False | Some (pre, post) \<Rightarrow> trim pre \<noteq> [])"

text \<open>
  The working text: the input after the chat marker and the white space behind it, the
  whole input when there is no chat marker.
\<close>

definition workingText :: "jsstring \<Rightarrow> jsstring" where
  "workingText input =
     (case chatSplit True input of None \<Rightarrow> input | Some (pre, post) \<Rightarrow> trimStart post)"

text \<open>
  There is facts text: after the first facts marker and the white space behind it the
  text goes on, and not with the sources marker.
\<close>

definition hasFactsText :: "jsstring \<Rightarrow> bool" where
  "hasFactsText t =
     (case afterMarker FACTS_LABEL t of
        None \<Rightarrow> False
      | Some u \<Rightarrow> trimStart u \<noteq> [] \<and> \<not> lit_at True SOURCES_LABEL (trimStart u))"

text \<open>There is a source list: the text after the first sources marker is not blank.\<close>

definition hasSourcesText :: "jsstring \<Rightarrow> bool" where
  "hasSourcesText t =
     (case afterMarker SOURCES_LABEL t of None \<Rightarrow> False | Some u \<Rightarrow> trim u \<noteq> [])"


section \<open>Example inputs\<close>

definition demo_nodes :: "KGNode list" where
  "demo_nodes = [plainNode (js ''service'') (js ''Risk Mgmt''), plainNode (js ''risk'') (js ''fraud''),
                 plainNode (js ''risk'') (js ''idle'')]"

definition demo_edges :: "KGEdge list" where
  "demo_edges = [\<lparr> e_id = js ''e_0'', e_source = js ''service:Risk Mgmt'', e_target = js ''risk:fraud'',
                   e_label = js ''ADDRESSES'', e_sources = None, e_sourceIndices = None \<rparr>]"

definition demo_filter :: FilterState where
  "demo_filter = \<lparr> selectedEntityTypes = {}, selectedRelationTypes = {}, searchTerm = js ''R'',
                    minDegree = 0, maxDegree = \<infinity>, showIsolates = False \<rparr>"

definition demo_filter2 :: FilterState where
  "demo_filter2 = \<lparr> selectedEntityTypes = {js ''risk''}, selectedRelationTypes = {}, searchTerm = js ''idle'',
                     minDegree = 0, maxDegree = 3, showIsolates = True \<rparr>"

text \<open>The example of the specification: one fact with one citation and its source list.\<close>

definition c2_input :: jsstring where
  \<open>c2_input = js ''Retrieved Facts: '' @ [8226] @ js '' (service:"risk mgmt") -[ADDRESSES]-> (risk:"fraud") [1]''
     @ [10] @ js ''Sources:'' @ [10] @ js ''[1] https://a.com''\<close>

definition c2_facts :: jsstring where
  \<open>c2_facts = [8226] @ js '' (service:"risk mgmt") -[ADDRESSES]-> (risk:"fraud") [1]''\<close>

definition c2_item :: jsstring where
  \<open>c2_item = js ''(service:"risk mgmt") -[ADDRESSES]-> (risk:"fraud") [1]''\<close>

definition c2_sources :: "(int \<times> jsstring) list" where
  "c2_sources = [(1, js ''https://a.com'')]"

definition c2_service :: KGNode where
  "c2_service = plainNode (js ''service'') (js ''risk mgmt'')"

definition c2_risk :: KGNode where
  "c2_risk = plainNode (js ''risk'') (js ''fraud'')"

definition c2_edge :: KGEdge where
  "c2_edge = \<lparr> e_id = js ''e_0'', e_source = js ''service:risk mgmt'', e_target = js ''risk:fraud'',
               e_label = js ''ADDRESSES'', e_sources = None, e_sourceIndices = Some [1] \<rparr>"

definition c2_result :: ParsedFacts where
  "c2_result = \<lparr> pf_cleanText = [], pf_nodes = [c2_service, c2_risk], pf_edges = [c2_edge],
            pf_types = [js ''risk'', js ''service''], pf_sourceIndexToUrl = c2_sources,
            pf_preamble = None \<rparr>"

text \<open>A source list that stands before the facts line.\<close>

definition c8_input :: jsstring where
  "c8_input = js ''Sources: x'' @ [10] @ js ''Retrieved Facts: y''"

definition c8_result :: ParsedFacts where
  "c8_result = \<lparr> pf_cleanText = js ''Sources: x'', pf_nodes = [], pf_edges = [], pf_types = [],
                 pf_sourceIndexToUrl = [], pf_preamble = None \<rparr>"

text \<open>Two bullets that mention the entity \<open>a:"x"\<close>, each with an attribute of its own.\<close>

definition c1_input :: jsstring where
  \<open>c1_input = js ''Retrieved Facts: '' @ [8226] @ js '' (a:"x" url=u) -[R]-> (b:"y") '' @ [8226]
     @ js '' (a:"x" page=p) -[R]-> (b:"y")''\<close>

definition c1_facts :: jsstring where
  \<open>c1_facts = [8226] @ js '' (a:"x" url=u) -[R]-> (b:"y") '' @ [8226]
     @ js '' (a:"x" page=p) -[R]-> (b:"y")''\<close>

definition c1_item1 :: jsstring where
  \<open>c1_item1 = js ''(a:"x" url=u) -[R]-> (b:"y")''\<close>

definition c1_item2 :: jsstring where
  \<open>c1_item2 = js ''(a:"x" page=p) -[R]-> (b:"y")''\<close>

definition c1_a_url :: KGNode where
  "c1_a_url = \<lparr> n_id = js ''a:x'', n_type = js ''a'', n_label = js ''x'', n_url = Some (js ''u''),
                n_page = None, n_attrs = Some [(js ''url'', js ''u'')] \<rparr>"

definition c1_a_page :: KGNode where
  "c1_a_page = \<lparr> n_id = js ''a:x'', n_type = js ''a'', n_label = js ''x'', n_url = None,
                 n_page = Some (js ''p''), n_attrs = Some [(js ''page'', js ''p'')] \<rparr>"

definition c1_b :: KGNode where
  "c1_b = plainNode (js ''b'') (js ''y'')"

definition c1_edges :: "KGEdge list" where
  "c1_edges = [\<lparr> e_id = js ''e_0'', e_source = js ''a:x'', e_target = js ''b:y'', e_label = js ''R'',
                  e_sources = None, e_sourceIndices = None \<rparr>,
               \<lparr> e_id = js ''e_1'', e_source = js ''a:x'', e_target = js ''b:y'', e_label = js ''R'',
                  e_sources = None, e_sourceIndices = None \<rparr>]"

definition c1_result :: ParsedFacts where
  "c1_result = \<lparr> pf_cleanText = [], pf_nodes = [c1_a_url, c1_b], pf_edges = c1_edges,
                 pf_types = [js ''a'', js ''b''], pf_sourceIndexToUrl = [], pf_preamble = None \<rparr>"

text \<open>A structured response with the given answer text, and a full triple line.\<close>

definition demo_response :: "jsstring \<Rightarrow> StructuredResponse" where
  "demo_response chat = \<lparr> Research_targets = [], Research_findings = [], Chat_Response = chat,
                          Suggested_Actions = [] \<rparr>"

definition c10_line :: jsstring where
  \<open>c10_line = js ''(a:"x") -[R]-> (b:"y")''\<close>




section \<open>The matcher consumes the text from left to right\<close>

lemma star_greedy_sound:
  "(b', a') \<in> set (star_greedy k b a) \<Longrightarrow> \<exists>w. a = w @ a' \<and> b' = rev w @ b"
proof (induction a arbitrary: b)
  case Nil
  then show ?case by simp
next
  case (Cons x xs)
  from Cons.prems consider "in_cset k x" "(b', a') \<in> set (star_greedy k (x # b) xs)"
    | "(b', a') = (b, x # xs)"
    by (auto split: if_splits)
  then show ?case
  proof cases
    case 1
    from Cons.IH[OF 1(2)] obtain w where "xs = w @ a'" "b' = rev w @ x # b" by blast
    then have "x # xs = (x # w) @ a' \<and> b' = rev (x # w) @ b" by simp
    then show ?thesis by blast
  next
    case 2
    then show ?thesis by simp
  qed
qed

lemma star_lazy_sound:
  "(b', a') \<in> set (star_lazy k b a) \<Longrightarrow> \<exists>w. a = w @ a' \<and> b' = rev w @ b"
proof (induction a arbitrary: b)
  case Nil
  then show ?case by simp
next
  case (Cons x xs)
  from Cons.prems consider "in_cset k x" "(b', a') \<in> set (star_lazy k (x # b) xs)"
    | "(b', a') = (b, x # xs)"
    by (auto split: if_splits)
  then show ?case
  proof cases
    case 1
    from Cons.IH[OF 1(2)] obtain w where "xs = w @ a'" "b' = rev w @ x # b" by blast
    then have "x # xs = (x # w) @ a' \<and> b' = rev (x # w) @ b" by simp
    then show ?thesis by blast
  next
    case 2
    then show ?thesis by simp
  qed
qed

lemma rmatch_sound:
  "(b', a', c') \<in> set (rmatch ci r (b, a, c)) \<Longrightarrow> \<exists>w. a = w @ a' \<and> b' = rev w @ b"
proof (induction r arbitrary: b a c b' a' c')
  case (Lit l)
  then have "a = take (length l) a @ a' \<and> b' = rev (take (length l) a) @ b"
    by (auto split: if_splits)
  then show ?case by blast
next
  case (Cls k)
  then show ?case by (auto split: list.splits if_splits)
next
  case (Star k)
  then show ?case by (auto dest: star_greedy_sound)
next
  case (LazyStar k)
  then show ?case by (auto dest: star_lazy_sound)
next
  case (Plus k)
  then obtain x xs where a: "a = x # xs" and m: "(b', a') \<in> set (star_greedy k (x # b) xs)"
    by (auto split: list.splits if_splits)
  from star_greedy_sound[OF m] obtain w where "xs = w @ a'" "b' = rev w @ x # b" by blast
  with a have "a = (x # w) @ a' \<and> b' = rev (x # w) @ b" by simp
  then show ?case by blast
next
  case (Opt r)
  then show ?case by auto
next
  case (Seq r1 r2)
  from Seq.prems obtain b1 a1 c1 where m1: "(b1, a1, c1) \<in> set (rmatch ci r1 (b, a, c))"
    and m2: "(b', a', c') \<in> set (rmatch ci r2 (b1, a1, c1))"
    by auto
  from Seq.IH(1)[OF m1] obtain w1 where w1: "a = w1 @ a1" "b1 = rev w1 @ b" by blast
  from Seq.IH(2)[OF m2] obtain w2 where w2: "a1 = w2 @ a'" "b' = rev w2 @ b1" by blast
  from w1 w2 have "a = (w1 @ w2) @ a' \<and> b' = rev (w1 @ w2) @ b" by simp
  then show ?case by blast
next
  case (Alt r1 r2)
  then show ?case by auto
next
  case (Cap n r)
  then show ?case by auto
next
  case Bol
  then show ?case by (auto split: if_splits)
next
  case Eol
  then show ?case by (auto split: if_splits)
next
  case Wb
  then show ?case by (auto split: if_splits)
qed

section \<open>The leftmost match\<close>

lemma search_None_iff:
  "search ci r b a = None \<longleftrightarrow> (\<forall>p q. a = p @ q \<longrightarrow> rmatch ci r (rev p @ b, q, []) = [])"
proof (induction a arbitrary: b)
  case Nil
  then show ?case by (simp split: list.splits)
next
  case (Cons x xs)
  show ?case
  proof (cases "rmatch ci r (b, x # xs, [])")
    case Nil
    have "(\<forall>p q. x # xs = p @ q \<longrightarrow> rmatch ci r (rev p @ b, q, []) = []) \<longleftrightarrow>
          (\<forall>p q. xs = p @ q \<longrightarrow> rmatch ci r (rev p @ x # b, q, []) = [])"
    proof (intro iffI allI impI)
      fix p q assume h: "\<forall>p q. x # xs = p @ q \<longrightarrow> rmatch ci r (rev p @ b, q, []) = []" and "xs = p @ q"
      then have "x # xs = (x # p) @ q" by simp
      with h have "rmatch ci r (rev (x # p) @ b, q, []) = []" by blast
      then show "rmatch ci r (rev p @ x # b, q, []) = []" by simp
    next
      fix p q assume h: "\<forall>p q. xs = p @ q \<longrightarrow> rmatch ci r (rev p @ x # b, q, []) = []" and e: "x # xs = p @ q"
      show "rmatch ci r (rev p @ b, q, []) = []"
      proof (cases p)
        case Nil
        with e \<open>rmatch ci r (b, x # xs, []) = []\<close> show ?thesis by simp
      next
        case (Cons y ys)
        with e have "xs = ys @ q" "y = x" by simp_all
        with h Cons show ?thesis by simp
      qed
    qed
    with Nil Cons.IH[of "x # b"] show ?thesis by simp
  next
    case (Cons m ms)
    then have "rmatch ci r (rev [] @ b, x # xs, []) \<noteq> []" by simp
    then have "\<not> (\<forall>p q. x # xs = p @ q \<longrightarrow> rmatch ci r (rev p @ b, q, []) = [])"
      by (metis append_Nil)
    with Cons show ?thesis by simp
  qed
qed

lemma search_Some:
  "search ci r b a = Some (i, st) \<Longrightarrow>
     \<exists>p q. a = p @ q \<and> i = length b + length p \<and> rmatch ci r (rev p @ b, q, []) \<noteq> []
          \<and> st = hd (rmatch ci r (rev p @ b, q, []))
          \<and> (\<forall>p' q'. a = p' @ q' \<and> length p' < length p \<longrightarrow> rmatch ci r (rev p' @ b, q', []) = [])"
proof (induction a arbitrary: b)
  case Nil
  then show ?case by (auto split: list.splits)
next
  case (Cons x xs)
  show ?case
  proof (cases "rmatch ci r (b, x # xs, [])")
    case Nil
    with Cons.prems have "search ci r (x # b) xs = Some (i, st)" by simp
    from Cons.IH[OF this] obtain p q where pq: "xs = p @ q" "i = length (x # b) + length p"
      "rmatch ci r (rev p @ x # b, q, []) \<noteq> []" "st = hd (rmatch ci r (rev p @ x # b, q, []))"
      and mn: "\<forall>p' q'. xs = p' @ q' \<and> length p' < length p \<longrightarrow> rmatch ci r (rev p' @ x # b, q', []) = []"
      by blast
    have "\<forall>p' q'. x # xs = p' @ q' \<and> length p' < length (x # p) \<longrightarrow> rmatch ci r (rev p' @ b, q', []) = []"
    proof (intro allI impI)
      fix p' q' assume h: "x # xs = p' @ q' \<and> length p' < length (x # p)"
      show "rmatch ci r (rev p' @ b, q', []) = []"
      proof (cases p')
        case Nil
        with h \<open>rmatch ci r (b, x # xs, []) = []\<close> show ?thesis by simp
      next
        case (Cons y ys)
        with h have "xs = ys @ q'" "y = x" "length ys < length p" by simp_all
        with mn Cons show ?thesis by simp
      qed
    qed
    with pq have "x # xs = (x # p) @ q \<and> i = length b + length (x # p)
        \<and> rmatch ci r (rev (x # p) @ b, q, []) \<noteq> []
        \<and> st = hd (rmatch ci r (rev (x # p) @ b, q, []))
        \<and> (\<forall>p' q'. x # xs = p' @ q' \<and> length p' < length (x # p) \<longrightarrow> rmatch ci r (rev p' @ b, q', []) = [])"
      by simp
    then show ?thesis by blast
  next
    case (Cons m ms)
    with Cons.prems have "i = length b" "st = m" by simp_all
    with Cons have "x # xs = [] @ (x # xs) \<and> i = length b + length ([]::nat list)
        \<and> rmatch ci r (rev [] @ b, x # xs, []) \<noteq> []
        \<and> st = hd (rmatch ci r (rev [] @ b, x # xs, []))
        \<and> (\<forall>p' q'. x # xs = p' @ q' \<and> length p' < length ([]::nat list) \<longrightarrow> rmatch ci r (rev p' @ b, q', []) = [])"
      by simp
    then show ?thesis by blast
  qed
qed

lemma re_match_Some:
  assumes "re_match ci r s = Some m"
  obtains p w a' c' where "s = p @ w @ a'" "m = (length p, (rev w @ rev p, a', c'))"
    "(rev w @ rev p, a', c') \<in> set (rmatch ci r (rev p, w @ a', []))"
    "\<forall>p' q'. s = p' @ q' \<and> length p' < length p \<longrightarrow> rmatch ci r (rev p', q', []) = []"
proof -
  obtain i st where m: "m = (i, st)" by (cases m)
  from assms m have "search ci r [] s = Some (i, st)" by (simp add: re_match_def)
  from search_Some[OF this] obtain p q where pq: "s = p @ q" "i = length p"
    "rmatch ci r (rev p, q, []) \<noteq> []" "st = hd (rmatch ci r (rev p, q, []))"
    and mn: "\<forall>p' q'. s = p' @ q' \<and> length p' < length p \<longrightarrow> rmatch ci r (rev p', q', []) = []"
    by auto
  obtain b' a' c' where st: "st = (b', a', c')" by (cases st)
  from pq st have mem: "(b', a', c') \<in> set (rmatch ci r (rev p, q, []))" by (metis hd_in_set)
  from rmatch_sound[OF mem] obtain w where w: "q = w @ a'" "b' = rev w @ rev p" by blast
  show thesis
    using that[of p w a' c'] pq m st w mem mn by simp
qed

lemma m_parts:
  "m_index (length p, (rev w @ rev p, a', c')) = length p"
  "m_text (length p, (rev w @ rev p, a', c')) = w"
  "m_end (length p, (rev w @ rev p, a', c')) = length p + length w"
  by (simp_all add: m_index_def m_text_def m_end_def)

lemma re_match_None_iff:
  "re_match ci r s = None \<longleftrightarrow> (\<forall>p q. s = p @ q \<longrightarrow> rmatch ci r (rev p, q, []) = [])"
  by (simp add: re_match_def search_None_iff)

section \<open>Markers and where the patterns can match\<close>

lemma containsCI_I: "lit_at True l q \<Longrightarrow> containsCI l (p @ q)"
proof -
  assume "lit_at True l q"
  then obtain z where "map canon q = map canon l @ z"
    by (auto simp: lit_at_def prefix_def)
  then have "map canon (p @ q) = map canon p @ map canon l @ z" by simp
  then show ?thesis unfolding containsCI_def sublist_def by blast
qed

lemma containsCI_E:
  assumes "containsCI l s"
  obtains p q where "s = p @ q" "lit_at True l q"
proof -
  from assms obtain ps ss where "map canon s = ps @ map canon l @ ss"
    unfolding containsCI_def sublist_def by blast
  then have "\<exists>us vs. s = us @ vs \<and> ps = map canon us \<and> map canon l @ ss = map canon vs"
    by (simp only: map_eq_append_conv)
  then obtain p q where pq: "s = p @ q" "map canon p = ps" "map canon q = map canon l @ ss"
    by metis
  then have "lit_at True l q" by (simp add: lit_at_def)
  with pq that show thesis by blast
qed

lemma containsCI_append1: "containsCI l s \<Longrightarrow> containsCI l (s @ t)"
  unfolding containsCI_def sublist_def by (metis append.assoc map_append)

lemma containsCI_append2: "containsCI l t \<Longrightarrow> containsCI l (s @ t)"
  unfolding containsCI_def sublist_def by (metis append.assoc map_append)

lemma containsCI_take: "containsCI l (take n s) \<Longrightarrow> containsCI l s"
  using containsCI_append1[of l "take n s" "drop n s"] by simp

lemma containsCI_drop: "containsCI l (drop n s) \<Longrightarrow> containsCI l s"
  using containsCI_append2[of l "drop n s" "take n s"] by simp

lemma trimEnd_prefix: "\<exists>z. s = trimEnd s @ z"
proof -
  have "s = rev (rev s)" by simp
  also have "\<dots> = rev (takeWhile isSpace (rev s) @ dropWhile isSpace (rev s))"
    by (simp only: takeWhile_dropWhile_id)
  also have "\<dots> = trimEnd s @ rev (takeWhile isSpace (rev s))"
    by (simp only: rev_append trimEnd_def)
  finally show ?thesis by blast
qed

lemma containsCI_trimEnd: "containsCI l (trimEnd s) \<Longrightarrow> containsCI l s"
  using trimEnd_prefix[of s] containsCI_append1 by metis

lemma lit_at_append: "lit_at ci l q \<Longrightarrow> lit_at ci l (q @ t)"
  by (auto simp: lit_at_def)

lemma lit_at_length: "lit_at ci l q \<Longrightarrow> length l \<le> length q"
  by (auto simp: lit_at_def dest: prefix_length_le split: if_splits)

lemma lit_at_hd:
  "lit_at True l q \<Longrightarrow> l \<noteq> [] \<Longrightarrow> q \<noteq> [] \<and> canon (hd q) = canon (hd l)"
  by (cases l; cases q) (auto simp: lit_at_def)

lemma FACTS_LABEL_hd: "FACTS_LABEL \<noteq> []" "canon (hd FACTS_LABEL) = 82" "length FACTS_LABEL = 16"
  by (simp_all add: FACTS_LABEL_def js_def canon_def)

text \<open>A pattern that begins with a literal matches only where the literal stands.\<close>

lemma rmatch_Lit_Seq: "rmatch ci (Seq (Lit l) r) (b, a, c) \<noteq> [] \<Longrightarrow> lit_at ci l a"
  by (auto split: if_splits)

lemma rmatch_Seq_nonempty:
  "st1 \<in> set (rmatch ci r1 st) \<Longrightarrow> rmatch ci r2 st1 \<noteq> [] \<Longrightarrow> rmatch ci (Seq r1 r2) st \<noteq> []"
  by auto

lemma rmatch_Seq_all:
  assumes "\<And>st1 st2. st2 \<in> set (rmatch ci r2 st1) \<Longrightarrow> P st2"
    and "st' \<in> set (rmatch ci (Seq r1 r2) st)"
  shows "P st'"
proof -
  from assms(2) obtain st1 where "st' \<in> set (rmatch ci r2 st1)" by auto
  then show ?thesis by (rule assms(1))
qed

lemma rmatch_Seq_E:
  assumes "st' \<in> set (rmatch ci (Seq r1 r2) st)"
  obtains st1 where "st' \<in> set (rmatch ci r2 st1)"
  using assms by auto

lemma rmatch_Seq_Lit_later:
  assumes "rmatch ci (Seq r1 (Seq (Lit l) r2)) (b, a, c) \<noteq> []"
  shows "\<exists>w q. a = w @ q \<and> lit_at ci l q"
proof -
  from assms obtain st1 where m1: "st1 \<in> set (rmatch ci r1 (b, a, c))"
    and m2: "rmatch ci (Seq (Lit l) r2) st1 \<noteq> []"
    by auto
  obtain b1 a1 c1 where st1: "st1 = (b1, a1, c1)" by (cases st1)
  from m1 st1 have "(b1, a1, c1) \<in> set (rmatch ci r1 (b, a, c))" by simp
  then have "\<exists>w. a = w @ a1 \<and> b1 = rev w @ b" by (rule rmatch_sound)
  then obtain w where w: "a = w @ a1" by blast
  from m2 st1 have "rmatch ci (Seq (Lit l) r2) (b1, a1, c1) \<noteq> []" by simp
  then have "lit_at ci l a1" by (rule rmatch_Lit_Seq)
  with w show ?thesis by blast
qed

lemma rmatch_Eol_end: "st2 \<in> set (rmatch ci Eol st1) \<Longrightarrow> fst (snd st2) = []"
  by (cases st1) (auto split: if_splits)

lemma star_greedy_last: "(b, a) \<in> set (star_greedy k b a)"
  by (cases a) simp_all

lemma star_lazy_any_end: "(rev a @ b, []) \<in> set (star_lazy AnyChar b a)"
  by (induction a arbitrary: b) (simp_all add: AnyChar_def)

text \<open>
  The facts pattern matches exactly where the facts label stands: after the label the
  lazy star can always run to the end of the text, where \<open>$\<close> holds.
\<close>

lemma facts_tail_nonempty:
  "rmatch True (Seq (Star Space) (Seq (Cap 1 (LazyStar AnyChar))
       (Alt (Seq (Lit [10]) (Seq (Star Space) (Lit SOURCES_LABEL))) (Alt (Lit SOURCES_LABEL) Eol)))) (b, a, c) \<noteq> []"
proof -
  have 1: "(b, a, c) \<in> set (rmatch True (Star Space) (b, a, c))"
    using star_greedy_last[of b a Space] by force
  have 2: "(rev a @ b, [], (1, rev (take (length (rev a @ b) - length b) (rev a @ b))) # c)
             \<in> set (rmatch True (Cap 1 (LazyStar AnyChar)) (b, a, c))"
    using star_lazy_any_end[of a b] by force
  have 3: "rmatch True (Alt (Seq (Lit [10]) (Seq (Star Space) (Lit SOURCES_LABEL))) (Alt (Lit SOURCES_LABEL) Eol))
             (rev a @ b, [], c') \<noteq> []" for c'
    by simp
  show ?thesis
    by (rule rmatch_Seq_nonempty[OF 1]) (rule rmatch_Seq_nonempty[OF 2 3])
qed

lemma factsRegex_matches_iff:
  "rmatch True factsRegex (b, a, c) \<noteq> [] \<longleftrightarrow> lit_at True FACTS_LABEL a"
proof
  assume "rmatch True factsRegex (b, a, c) \<noteq> []"
  then show "lit_at True FACTS_LABEL a"
    unfolding factsRegex_def by (rule rmatch_Lit_Seq)
next
  assume l: "lit_at True FACTS_LABEL a"
  then have "(rev (take (length FACTS_LABEL) a) @ b, drop (length FACTS_LABEL) a, c)
      \<in> set (rmatch True (Lit FACTS_LABEL) (b, a, c))" by simp
  then show "rmatch True factsRegex (b, a, c) \<noteq> []"
    unfolding factsRegex_def by (rule rmatch_Seq_nonempty) (rule facts_tail_nonempty)
qed

lemma factsRegex_None_iff: "re_match True factsRegex s = None \<longleftrightarrow> \<not> containsCI FACTS_LABEL s"
proof
  assume n: "re_match True factsRegex s = None"
  show "\<not> containsCI FACTS_LABEL s"
  proof
    assume "containsCI FACTS_LABEL s"
    then obtain p q where "s = p @ q" "lit_at True FACTS_LABEL q" by (rule containsCI_E)
    with n[unfolded re_match_None_iff] factsRegex_matches_iff show False by blast
  qed
next
  assume n: "\<not> containsCI FACTS_LABEL s"
  have "rmatch True factsRegex (rev p, q, []) = []" if "s = p @ q" for p q
  proof (rule ccontr)
    assume "rmatch True factsRegex (rev p, q, []) \<noteq> []"
    then have "lit_at True FACTS_LABEL q" by (simp add: factsRegex_matches_iff)
    with that n show False using containsCI_I by blast
  qed
  then show "re_match True factsRegex s = None" by (simp add: re_match_None_iff)
qed

lemma sourcesOnly_end:
  assumes "st' \<in> set (rmatch True sourcesOnlyRegex st)"
  shows "fst (snd st') = []"
proof -
  from assms obtain s1 where
    "st' \<in> set (rmatch True (Seq (Star Space) (Seq (Lit SOURCES_LABEL) (Seq (Star AnyChar) Eol))) s1)"
    unfolding sourcesOnlyRegex_def by (rule rmatch_Seq_E)
  then obtain s2 where
    "st' \<in> set (rmatch True (Seq (Lit SOURCES_LABEL) (Seq (Star AnyChar) Eol)) s2)"
    by (rule rmatch_Seq_E)
  then obtain s3 where "st' \<in> set (rmatch True (Seq (Star AnyChar) Eol) s3)"
    by (rule rmatch_Seq_E)
  then obtain s4 where "st' \<in> set (rmatch True Eol s4)"
    by (rule rmatch_Seq_E)
  then show ?thesis by (rule rmatch_Eol_end)
qed

lemma sourcesRegex_sound: "re_match True sourcesRegex s = Some m \<Longrightarrow> containsCI SOURCES_LABEL s"
proof -
  assume "re_match True sourcesRegex s = Some m"
  then obtain p w a' c' where s: "s = p @ w @ a'"
    and mem: "(rev w @ rev p, a', c') \<in> set (rmatch True sourcesRegex (rev p, w @ a', []))"
    by (rule re_match_Some)
  from mem have "rmatch True sourcesRegex (rev p, w @ a', []) \<noteq> []" by auto
  then have "lit_at True SOURCES_LABEL (w @ a')"
    unfolding sourcesRegex_def by (rule rmatch_Lit_Seq)
  with s show ?thesis by (simp add: containsCI_I)
qed

lemma chatResponseRegex_sound:
  "re_match True chatResponseRegex s = Some m \<Longrightarrow> containsCI (js ''Chat Response:'') s"
proof -
  assume "re_match True chatResponseRegex s = Some m"
  then obtain p w a' c' where s: "s = p @ w @ a'"
    and mem: "(rev w @ rev p, a', c') \<in> set (rmatch True chatResponseRegex (rev p, w @ a', []))"
    by (rule re_match_Some)
  from mem have "rmatch True chatResponseRegex (rev p, w @ a', []) \<noteq> []" by auto
  then have "\<exists>u q. w @ a' = u @ q \<and> lit_at True (js ''Chat Response:'') q"
    unfolding chatResponseRegex_def by (rule rmatch_Seq_Lit_later)
  then obtain u q where "w @ a' = u @ q" "lit_at True (js ''Chat Response:'') q"
    by blast
  with s have e: "s = (p @ u) @ q" and l: "lit_at True (js ''Chat Response:'') q" by simp_all
  show ?thesis unfolding e using l by (rule containsCI_I)
qed

lemma lastIndexOf_Some:
  assumes "lastIndexOf c s pos = Some j"
  shows "j \<le> nat (max pos 0) \<and> j < length s \<and> s ! j = c"
proof -
  define pre where "pre = take (Suc (nat (max pos 0))) s"
  define t where "t = takeWhile (\<lambda>x. x \<noteq> c) (rev pre)"
  from assms have mem: "c \<in> set pre" and j: "j = length pre - Suc (length t)"
    by (auto simp: lastIndexOf_def pre_def t_def Let_def split: if_splits)
  from mem have "takeWhile (\<lambda>x. x \<noteq> c) (rev pre) \<noteq> rev pre"
    by (simp add: takeWhile_eq_all_conv)
  then have "length t \<noteq> length (rev pre)"
    unfolding t_def using takeWhile_eq_take[of "\<lambda>x. x \<noteq> c" "rev pre"]
    by (metis take_all order_refl)
  moreover have "length t \<le> length (rev pre)"
    unfolding t_def by (rule length_takeWhile_le)
  ultimately have lt: "length t < length (rev pre)" by simp
  then have "\<not> (rev pre ! length t \<noteq> c)"
    unfolding t_def by (rule nth_length_takeWhile)
  with lt have "pre ! j = c" by (simp add: rev_nth j)
  moreover from lt j have "j < length pre" by simp
  ultimately show ?thesis by (auto simp: pre_def)
qed

section \<open>The loop over the matches\<close>

text \<open>
  The patterns that run under \<open>exec_all\<close> are consuming, so each turn of the loop moves on
  in the text.
\<close>

lemma rmatch_length_le:
  "(b', a', c') \<in> set (rmatch ci r (b, a, c)) \<Longrightarrow> length a' \<le> length a"
  using rmatch_sound[of b' a' c' ci r b a c] by auto

lemma consuming_Lit: "l \<noteq> [] \<Longrightarrow> consuming ci (Lit l)"
proof -
  assume l: "l \<noteq> []"
  have "length (drop (length l) a) < length a" if "lit_at ci l a" for a
    using lit_at_length[OF that] l by (cases l) auto
  then show ?thesis
    by (auto simp: consuming_def split: if_splits)
qed

lemma consuming_Cls: "consuming ci (Cls k)"
  by (auto simp: consuming_def split: list.splits if_splits)

lemma consuming_Plus: "consuming ci (Plus k)"
proof -
  have "length a' < length (x # xs)" if "(b', a') \<in> set (star_greedy k (x # b) xs)" for b' a' x xs b
    using star_greedy_sound[OF that] by auto
  then show ?thesis
    by (auto simp: consuming_def split: list.splits if_splits)
qed

lemma consuming_Cap: "consuming ci r \<Longrightarrow> consuming ci (Cap n r)"
  unfolding consuming_def
proof (intro allI impI)
  fix b a c b' a' c'
  assume h: "\<forall>b a c b' a' c'. (b', a', c') \<in> set (rmatch ci r (b, a, c)) \<longrightarrow> length a' < length a"
    and m: "(b', a', c') \<in> set (rmatch ci (Cap n r) (b, a, c))"
  from m obtain c0 where "(b', a', c0) \<in> set (rmatch ci r (b, a, c))" by auto
  with h show "length a' < length a" by blast
qed

lemma consuming_Seq1: "consuming ci r1 \<Longrightarrow> consuming ci (Seq r1 r2)"
  unfolding consuming_def
proof (intro allI impI)
  fix b a c b' a' c'
  assume h: "\<forall>b a c b' a' c'. (b', a', c') \<in> set (rmatch ci r1 (b, a, c)) \<longrightarrow> length a' < length a"
    and m: "(b', a', c') \<in> set (rmatch ci (Seq r1 r2) (b, a, c))"
  from m obtain b1 a1 c1 where m1: "(b1, a1, c1) \<in> set (rmatch ci r1 (b, a, c))"
    and m2: "(b', a', c') \<in> set (rmatch ci r2 (b1, a1, c1))" by auto
  from h m1 have "length a1 < length a" by blast
  with rmatch_length_le[OF m2] show "length a' < length a" by simp
qed

lemma consuming_Seq2: "consuming ci r2 \<Longrightarrow> consuming ci (Seq r1 r2)"
  unfolding consuming_def
proof (intro allI impI)
  fix b a c b' a' c'
  assume h: "\<forall>b a c b' a' c'. (b', a', c') \<in> set (rmatch ci r2 (b, a, c)) \<longrightarrow> length a' < length a"
    and m: "(b', a', c') \<in> set (rmatch ci (Seq r1 r2) (b, a, c))"
  from m obtain b1 a1 c1 where m1: "(b1, a1, c1) \<in> set (rmatch ci r1 (b, a, c))"
    and m2: "(b', a', c') \<in> set (rmatch ci r2 (b1, a1, c1))" by auto
  from h m2 have "length a' < length a1" by blast
  with rmatch_length_le[OF m1] show "length a' < length a" by simp
qed

lemma search_progress:
  assumes "consuming ci r" "search ci r b a = Some m"
  shows "length (fst (snd (snd m))) < length a"
proof -
  obtain i st where m: "m = (i, st)" by (cases m)
  from search_Some[OF assms(2)[unfolded m]] obtain p q where pq: "a = p @ q"
    and ne: "rmatch ci r (rev p @ b, q, []) \<noteq> []" and st: "st = hd (rmatch ci r (rev p @ b, q, []))"
    by blast
  obtain b' a' c' where s: "st = (b', a', c')" by (cases st)
  from ne st s have "(b', a', c') \<in> set (rmatch ci r (rev p @ b, q, []))" by (metis hd_in_set)
  with assms(1) have "length a' < length q" unfolding consuming_def by blast
  with pq m s show ?thesis by simp
qed

text \<open>For such a pattern the test in \<open>exec_all\<close> always succeeds: it is the plain loop.\<close>

lemma exec_all_progress:
  assumes "consuming ci r"
  shows "exec_all ci r b a =
     (case search ci r b a of
        None \<Rightarrow> []
      | Some m \<Rightarrow> m # exec_all ci r (fst (snd m)) (fst (snd (snd m))))"
  using search_progress[OF assms] by (subst exec_all.simps) (auto split: option.splits)

lemma patterns_consuming:
  "consuming False sourceEntryRegex" "consuming False keyValueRegex" "consuming False typeLabelRegex"
  "consuming False sourceIdxRegex" "consuming False bracketRegex"
proof -
  show "consuming False sourceEntryRegex"
    unfolding sourceEntryRegex_def by (rule consuming_Seq1, rule consuming_Lit) (simp add: js_def)
  show "consuming False keyValueRegex"
    unfolding keyValueRegex_def
    by (rule consuming_Seq2, rule consuming_Seq1, rule consuming_Cap, rule consuming_Plus)
  show "consuming False typeLabelRegex"
    unfolding typeLabelRegex_def
    by (rule consuming_Seq2, rule consuming_Seq1, rule consuming_Cap, rule consuming_Plus)
  show "consuming False sourceIdxRegex"
    unfolding sourceIdxRegex_def by (rule consuming_Seq1, rule consuming_Lit) (simp add: js_def)
  show "consuming False bracketRegex"
    unfolding bracketRegex_def by (rule consuming_Seq1, rule consuming_Cls)
qed

section \<open>The clean text\<close>

lemma extractBlocks_clean:
  "\<not> containsCI FACTS_LABEL (snd (snd (extractBlocks s)))"
proof (cases "re_match True factsRegex s")
  case None
  then have nc: "\<not> containsCI FACTS_LABEL s" by (simp add: factsRegex_None_iff)
  have rf: "\<not> containsCI FACTS_LABEL (remove_first True sourcesOnlyRegex s)"
  proof (cases "re_match True sourcesOnlyRegex s")
    case None
    with nc show ?thesis by (simp add: remove_first_def)
  next
    case (Some m)
    then obtain p w a' c' where s: "s = p @ w @ a'" and m: "m = (length p, (rev w @ rev p, a', c'))"
      and mem: "(rev w @ rev p, a', c') \<in> set (rmatch True sourcesOnlyRegex (rev p, w @ a', []))"
      by (rule re_match_Some)
    from sourcesOnly_end[OF mem] have "a' = []" by simp
    with s m have "drop (m_end m) s = []" by (simp add: m_parts)
    with Some have "remove_first True sourcesOnlyRegex s = take (m_index m) s"
      by (simp add: remove_first_def)
    with nc show ?thesis using containsCI_take[of FACTS_LABEL "m_index m" s] by auto
  qed
  from None have "snd (snd (extractBlocks s)) = s
      \<or> snd (snd (extractBlocks s)) = trimEnd (remove_first True sourcesOnlyRegex s)"
    by (simp add: extractBlocks_def Let_def)
  with nc rf show ?thesis
    using containsCI_trimEnd[of FACTS_LABEL "remove_first True sourcesOnlyRegex s"] by auto
next
  case (Some m)
  then obtain p w a' c' where s: "s = p @ w @ a'" and m: "m = (length p, (rev w @ rev p, a', c'))"
    and mem: "(rev w @ rev p, a', c') \<in> set (rmatch True factsRegex (rev p, w @ a', []))"
    and mn: "\<forall>p' q'. s = p' @ q' \<and> length p' < length p \<longrightarrow> rmatch True factsRegex (rev p', q', []) = []"
    by (rule re_match_Some)
  define start where "start = (case lastIndexOf 10 s (int (m_index m) - 1) of None \<Rightarrow> 0 | Some j \<Rightarrow> j + 1)"
  from Some have ct: "snd (snd (extractBlocks s)) = trimEnd (take start s)"
    by (simp add: extractBlocks_def Let_def start_def)
  from mem have "rmatch True factsRegex (rev p, w @ a', []) \<noteq> []" by auto
  then have lit: "lit_at True FACTS_LABEL (w @ a')" by (simp add: factsRegex_matches_iff)
  have start_le: "start \<le> length p"
  proof (cases "lastIndexOf 10 s (int (m_index m) - 1)")
    case None
    then show ?thesis by (simp add: start_def)
  next
    case (Some j)
    from lastIndexOf_Some[OF Some] m have j: "j \<le> nat (max (int (length p) - 1) 0)" "j < length s" "s ! j = 10"
      by (simp_all add: m_parts)
    show ?thesis
    proof (cases "length p = 0")
      case True
      with s have "s = w @ a'" by simp
      with lit lit_at_hd[of FACTS_LABEL s] FACTS_LABEL_hd have "s \<noteq> []" "canon (hd s) = 82" by simp_all
      moreover from True j have "j = 0" by simp
      ultimately have "canon (s ! 0) = 82" by (simp add: hd_conv_nth)
      with j \<open>j = 0\<close> show ?thesis by (simp add: canon_def)
    next
      case False
      then have lp: "0 < length p" by simp
      then have "nat (max (int (length p) - 1) 0) = length p - 1" by simp
      with j(1) lp have "Suc j \<le> length p" by linarith
      with Some show ?thesis by (simp add: start_def)
    qed
  qed
  show ?thesis
  proof
    assume "containsCI FACTS_LABEL (snd (snd (extractBlocks s)))"
    with ct have "containsCI FACTS_LABEL (take start s)"
      using containsCI_trimEnd[of FACTS_LABEL "take start s"] by simp
    then obtain p2 q2 where pq: "take start s = p2 @ q2" and l2: "lit_at True FACTS_LABEL q2"
      by (rule containsCI_E)
    from l2 have "length FACTS_LABEL \<le> length q2" by (rule lit_at_length)
    with FACTS_LABEL_hd(3) have "0 < length q2" by linarith
    moreover have "length p2 + length q2 \<le> start"
      using arg_cong[OF pq, of length] by simp
    ultimately have lt: "length p2 < length p" using start_le by linarith
    have e: "s = p2 @ (q2 @ drop start s)"
      using append_take_drop_id[of start s] pq by simp
    have l3: "lit_at True FACTS_LABEL (q2 @ drop start s)"
      using l2 by (rule lit_at_append)
    from mn[rule_format, of p2 "q2 @ drop start s"] e lt
    have "rmatch True factsRegex (rev p2, q2 @ drop start s, []) = []" by blast
    moreover from l3 have "rmatch True factsRegex (rev p2, q2 @ drop start s, []) \<noteq> []"
      by (simp add: factsRegex_matches_iff)
    ultimately show False by simp
  qed
qed

lemma extractBlocks_no_facts:
  "\<not> containsCI FACTS_LABEL s \<Longrightarrow> fst (extractBlocks s) = None"
  by (simp add: extractBlocks_def Let_def factsRegex_None_iff[symmetric])

lemma contentForFacts_suffix: "\<exists>n. contentForFacts input = drop n input"
  by (cases "re_match True chatResponseRegex input") (auto simp: contentForFacts_def intro: exI[of _ 0])

lemma parse_cleanText:
  "parseRetrievedFacts input = Some r \<Longrightarrow> pf_cleanText r = snd (snd (extractBlocks (contentForFacts input)))"
  by (auto simp: parseRetrievedFacts_def Let_def split: if_splits prod.splits)

lemma parse_no_facts:
  assumes "\<not> containsCI FACTS_LABEL input" "parseRetrievedFacts input = Some r"
  shows "pf_nodes r = [] \<and> pf_edges r = []"
proof -
  from contentForFacts_suffix obtain n where "contentForFacts input = drop n input" by blast
  with assms(1) have "\<not> containsCI FACTS_LABEL (contentForFacts input)"
    using containsCI_drop by metis
  then have "fst (extractBlocks (contentForFacts input)) = None" by (rule extractBlocks_no_facts)
  with assms(2) show ?thesis
    by (auto simp: parseRetrievedFacts_def Let_def truthy_def split: if_splits prod.splits)
qed

section \<open>The node table\<close>

lemma find_append:
  "find P (xs @ ys) = (case find P xs of None \<Rightarrow> find P ys | Some x \<Rightarrow> Some x)"
  by (induction xs) simp_all

lemma parseEntity_id: "parseEntity raw = Some n \<Longrightarrow> n_id n = makeNodeId (n_type n) (n_label n)"
  by (auto simp: parseEntity_def Let_def split: if_splits)

lemma parseBullet_ids:
  assumes "parseBullet srcs item = Some (l, r, rest)"
  shows "n_id l = makeNodeId (n_type l) (n_label l) \<and> n_id r = makeNodeId (n_type r) (n_label r)"
  using assms
  by (auto simp: parseBullet_def Let_def parseEntity_id split: option.splits)

lemma setIfAbsent_inv:
  assumes inv: "nodes_inv nb occs" and k: "k = n_id n"
  shows "nodes_inv (setIfAbsent k n nb) (occs @ [n])"
proof (cases "map_of nb k")
  case None
  then have notin: "k \<notin> fst ` set nb" by (simp add: map_of_eq_None_iff)
  with inv have "k \<notin> n_id ` set occs" by (simp add: nodes_inv_def)
  then have fn: "find (\<lambda>e. n_id e = k) occs = None" by (auto simp: find_None_iff)
  from None have s: "setIfAbsent k n nb = nb @ [(k, n)]" by (simp add: setIfAbsent_def)
  have d: "distinct (map fst (nb @ [(k, n)]))" using inv notin by (simp add: nodes_inv_def)
  have f: "\<forall>(k', n') \<in> set (nb @ [(k, n)]). k' = n_id n' \<and> find (\<lambda>e. n_id e = k') (occs @ [n]) = Some n'"
    using inv k fn by (auto simp: nodes_inv_def find_append)
  have i: "fst ` set (nb @ [(k, n)]) = n_id ` set (occs @ [n])"
    using inv k by (auto simp: nodes_inv_def)
  from d f i show ?thesis unfolding s nodes_inv_def by blast
next
  case (Some n0)
  then have s: "setIfAbsent k n nb = nb" by (simp add: setIfAbsent_def)
  from Some have kin: "k \<in> fst ` set nb" by (metis map_of_eq_None_iff option.distinct(1))
  have f: "\<forall>(k', n') \<in> set nb. k' = n_id n' \<and> find (\<lambda>e. n_id e = k') (occs @ [n]) = Some n'"
    using inv by (auto simp: nodes_inv_def find_append)
  have i: "fst ` set nb = n_id ` set (occs @ [n])"
    using inv k kin by (auto simp: nodes_inv_def)
  from inv f i show ?thesis unfolding s nodes_inv_def by blast
qed

lemma bulletStep_inv:
  assumes inv: "nodes_inv nb occs" and st: "bulletStep srcs item (nb, es, c) = (nb', es', c')"
  shows "nodes_inv nb' (occs @ entityOccurrences srcs [item])"
proof (cases "parseBullet srcs item")
  case None
  with st inv show ?thesis by (simp add: bulletStep_def entityOccurrences_def)
next
  case (Some t)
  obtain l r rel esr eis where t: "t = (l, r, rel, esr, eis)" by (cases t)
  from Some t parseBullet_ids have ids: "makeNodeId (n_type l) (n_label l) = n_id l"
    "makeNodeId (n_type r) (n_label r) = n_id r" by simp_all
  from Some t st have nb': "nb' = setIfAbsent (n_id r) r (setIfAbsent (n_id l) l nb)"
    by (simp add: bulletStep_def Let_def ids)
  have "nodes_inv (setIfAbsent (n_id l) l nb) (occs @ [l])"
    using inv by (rule setIfAbsent_inv) simp
  then have "nodes_inv (setIfAbsent (n_id r) r (setIfAbsent (n_id l) l nb)) ((occs @ [l]) @ [r])"
    by (rule setIfAbsent_inv) simp
  with Some t nb' show ?thesis by (simp add: entityOccurrences_def)
qed

lemma entityOccurrences_Cons:
  "entityOccurrences srcs (item # items) = entityOccurrences srcs [item] @ entityOccurrences srcs items"
  by (simp add: entityOccurrences_def)

lemma fold_bulletStep_inv:
  "nodes_inv nb occs \<Longrightarrow> fold (bulletStep srcs) items (nb, es, c) = (nb', es', c') \<Longrightarrow>
     nodes_inv nb' (occs @ entityOccurrences srcs items)"
proof (induction items arbitrary: nb es c occs)
  case Nil
  then show ?case by (simp add: entityOccurrences_def)
next
  case (Cons item items)
  obtain nb1 es1 c1 where s1: "bulletStep srcs item (nb, es, c) = (nb1, es1, c1)"
    by (cases "bulletStep srcs item (nb, es, c)")
  from Cons.prems(1) s1 have i1: "nodes_inv nb1 (occs @ entityOccurrences srcs [item])"
    by (rule bulletStep_inv)
  from Cons.prems(2) s1 have "fold (bulletStep srcs) items (nb1, es1, c1) = (nb', es', c')" by simp
  from Cons.IH[OF i1 this] show ?case
    by (simp add: entityOccurrences_Cons[of srcs item items])
qed

lemma occurrences_ids:
  "n \<in> set (entityOccurrences srcs items) \<Longrightarrow> n_id n = makeNodeId (n_type n) (n_label n)"
proof -
  assume "n \<in> set (entityOccurrences srcs items)"
  then have "\<exists>item. n \<in> set (case parseBullet srcs item of None \<Rightarrow> [] | Some (left, right, _) \<Rightarrow> [left, right])"
    unfolding entityOccurrences_def set_concat set_map by blast
  then obtain item where
    n: "n \<in> set (case parseBullet srcs item of None \<Rightarrow> [] | Some (left, right, _) \<Rightarrow> [left, right])"
    by (rule exE)
  then obtain l r rest where pb: "parseBullet srcs item = Some (l, r, rest)" and "n = l \<or> n = r"
    by (cases "parseBullet srcs item") auto
  with parseBullet_ids[OF pb] show ?thesis by auto
qed

lemma parseFactsBullets_inv:
  assumes "parseFactsBullets fb srcs = (ns, es)"
  shows "distinct (map n_id ns)
       \<and> n_id ` set ns = n_id ` set (entityOccurrences srcs (rawItems fb))
       \<and> (\<forall>n \<in> set ns. find (\<lambda>e. n_id e = n_id n) (entityOccurrences srcs (rawItems fb)) = Some n)"
proof -
  obtain nb es' c' where f: "fold (bulletStep srcs) (rawItems fb) ([], [], 0) = (nb, es', c')"
    by (cases "fold (bulletStep srcs) (rawItems fb) ([], [], 0)")
  with assms have ns: "ns = map snd nb" by (simp add: parseFactsBullets_def)
  have "nodes_inv [] []" by (simp add: nodes_inv_def)
  from fold_bulletStep_inv[OF this f] have inv: "nodes_inv nb (entityOccurrences srcs (rawItems fb))"
    by simp
  then have keys: "map fst nb = map n_id (map snd nb)"
    by (auto simp: nodes_inv_def)
  from inv have d: "distinct (map n_id ns)" unfolding ns keys[symmetric] by (simp add: nodes_inv_def)
  from inv have i: "n_id ` set ns = n_id ` set (entityOccurrences srcs (rawItems fb))"
    using keys unfolding ns nodes_inv_def by (metis list.set_map)
  from inv have fnd: "\<forall>n \<in> set ns. find (\<lambda>e. n_id e = n_id n) (entityOccurrences srcs (rawItems fb)) = Some n"
    unfolding ns nodes_inv_def by fastforce
  from d i fnd show ?thesis by blast
qed

lemma distinct_pairs:
  assumes "distinct (map n_id ns)" "\<forall>n \<in> set ns. n_id n = makeNodeId (n_type n) (n_label n)"
  shows "distinct (map (\<lambda>n. (n_type n, n_label n)) ns)"
proof -
  from assms(1) have d: "distinct ns" and inj: "inj_on n_id (set ns)" by (simp_all add: distinct_map)
  have "inj_on (\<lambda>n. (n_type n, n_label n)) (set ns)"
  proof (rule inj_onI)
    fix x y assume "x \<in> set ns" "y \<in> set ns" "(n_type x, n_label x) = (n_type y, n_label y)"
    with assms(2) have "n_id x = n_id y" by simp
    with inj \<open>x \<in> set ns\<close> \<open>y \<in> set ns\<close> show "x = y" by (auto dest: inj_onD)
  qed
  with d show ?thesis by (simp add: distinct_map)
qed

lemma parseFactsBullets_distinct:
  assumes "parseFactsBullets fb srcs = (ns, es)"
  shows "distinct (map n_id ns) \<and> distinct (map (\<lambda>n. (n_type n, n_label n)) ns)"
proof -
  note inv = parseFactsBullets_inv[OF assms]
  have "\<forall>n \<in> set ns. n_id n = makeNodeId (n_type n) (n_label n)"
  proof
    fix n assume "n \<in> set ns"
    with inv have "find (\<lambda>e. n_id e = n_id n) (entityOccurrences srcs (rawItems fb)) = Some n" by blast
    then have "n \<in> set (entityOccurrences srcs (rawItems fb))" by (auto simp: find_Some_iff)
    then show "n_id n = makeNodeId (n_type n) (n_label n)" by (rule occurrences_ids)
  qed
  with inv distinct_pairs show ?thesis by blast
qed

section \<open>The text before and after the markers\<close>

text \<open>
  What the patterns find, said of the text: the chat pattern splits the input where
  \<open>chatSplit\<close> splits it, the facts and the sources pattern match at the first place where
  their label stands, and their captures are the text behind the label and the white
  space that follows it.
\<close>

lemma star_greedy_hd:
  "\<exists>rest. star_greedy k b a = (rev (takeWhile (in_cset k) a) @ b, dropWhile (in_cset k) a) # rest"
proof (induction a arbitrary: b)
  case Nil
  show ?case by simp
next
  case (Cons x xs)
  show ?case
  proof (cases "in_cset k x")
    case True
    from Cons[of "x # b"] obtain rest where
      "star_greedy k (x # b) xs = (rev (takeWhile (in_cset k) xs) @ x # b, dropWhile (in_cset k) xs) # rest"
      by blast
    with True show ?thesis by simp
  next
    case False
    then show ?thesis by simp
  qed
qed

lemma star_greedy_Space_hd:
  "\<exists>rest. star_greedy Space b a = (rev (takeWhile isSpace a) @ b, dropWhile isSpace a) # rest"
proof -
  have "in_cset Space = isSpace" by (rule ext) simp
  with star_greedy_hd[of Space b a] show ?thesis by simp
qed

lemma star_greedy_AnyChar_hd:
  "\<exists>rest. star_greedy AnyChar b a = (rev a @ b, []) # rest"
proof -
  have "takeWhile (in_cset AnyChar) a = a" "dropWhile (in_cset AnyChar) a = []"
    by (simp_all add: AnyChar_def)
  with star_greedy_hd[of AnyChar b a] show ?thesis by simp
qed

lemma search_marker:
  assumes ne: "\<And>b a. rmatch True r (b, a, []) \<noteq> []" and l: "l \<noteq> []"
  shows "(afterMarker l s = None \<longrightarrow> search True (Seq (Lit l) r) b s = None)
       \<and> (\<forall>u. afterMarker l s = Some u \<longrightarrow>
            (\<exists>i b1. search True (Seq (Lit l) r) b s = Some (i, hd (rmatch True r (b1, u, [])))))"
proof (induction s arbitrary: b)
  case Nil
  have "\<not> lit_at True l []" using l by (simp add: lit_at_def)
  then show ?case by simp
next
  case (Cons x xs)
  show ?case
  proof (cases "lit_at True l (x # xs)")
    case True
    then have e: "rmatch True (Seq (Lit l) r) (b, x # xs, []) =
        rmatch True r (rev (take (length l) (x # xs)) @ b, drop (length l) (x # xs), [])"
      by simp
    obtain m ms where m: "rmatch True r (rev (take (length l) (x # xs)) @ b, drop (length l) (x # xs), []) = m # ms"
      using ne[of "rev (take (length l) (x # xs)) @ b" "drop (length l) (x # xs)"]
      by (cases "rmatch True r (rev (take (length l) (x # xs)) @ b, drop (length l) (x # xs), [])") auto
    have "search True (Seq (Lit l) r) b (x # xs) = Some (length b, m)"
      by (simp only: search.simps e m list.case)
    moreover have "hd (rmatch True r (rev (take (length l) (x # xs)) @ b, drop (length l) (x # xs), [])) = m"
      by (simp only: m list.sel)
    ultimately have "\<exists>i b1. search True (Seq (Lit l) r) b (x # xs)
        = Some (i, hd (rmatch True r (b1, drop (length l) (x # xs), [])))"
      by metis
    with True show ?thesis by simp
  next
    case False
    then have "rmatch True (Seq (Lit l) r) (b, x # xs, []) = []" by simp
    then have "search True (Seq (Lit l) r) b (x # xs) = search True (Seq (Lit l) r) (x # b) xs"
      by (simp only: search.simps list.case)
    then show ?thesis using Cons[of "x # b"] False by simp
  qed
qed

lemma lit_Seq_Star:
  "rmatch True (Seq (Lit l) (Star Space)) (b, a, c) =
     (if lit_at True l a
      then map (\<lambda>(b', a'). (b', a', c)) (star_greedy Space (rev (take (length l) a) @ b) (drop (length l) a))
      else [])"
  by simp

lemma lit_Seq_Star_hd:
  assumes "lit_at True l a"
  shows "\<exists>b' rest. rmatch True (Seq (Lit l) (Star Space)) (b, a, c) =
           (b', dropWhile isSpace (drop (length l) a), c) # rest"
proof -
  from star_greedy_Space_hd[of "rev (take (length l) a) @ b" "drop (length l) a"]
  obtain rest where "star_greedy Space (rev (take (length l) a) @ b) (drop (length l) a) =
      (rev (takeWhile isSpace (drop (length l) a)) @ rev (take (length l) a) @ b,
       dropWhile isSpace (drop (length l) a)) # rest"
    by blast
  with assms show ?thesis
    by (simp only: lit_Seq_Star if_True list.map prod.case) blast
qed

lemma lit_newline: "lit_at True [10] a \<longleftrightarrow> (a \<noteq> [] \<and> hd a = 10)"
  by (cases a) (auto simp: lit_at_def canon_def)

lemma chat_rmatch:
  "rmatch True chatResponseRegex (b, a, []) =
     (if b = [] then rmatch True (Seq (Lit (js ''Chat Response:'')) (Star Space)) (b, a, []) else [])
   @ (if a \<noteq> [] \<and> hd a = 10
      then rmatch True (Seq (Lit (js ''Chat Response:'')) (Star Space)) (10 # b, tl a, [])
      else [])"
proof -
  have 1: "rmatch True (Alt Bol (Lit [10])) (b, a, []) =
      (if b = [] then [(b, a, [])] else []) @ (if a \<noteq> [] \<and> hd a = 10 then [(10 # b, tl a, [])] else [])"
    by (cases a) (auto simp: lit_newline simp del: lit_at_def)
  show ?thesis
    unfolding chatResponseRegex_def
    by (simp only: rmatch.simps(7)[of True "Alt Bol (Lit [10])"] 1) simp
qed

lemma chat_label_length: "length (js ''Chat Response:'') = 14"
  by (simp add: js_def)

lemma chat_search:
  "(chatSplit (b = []) s = None \<longrightarrow> search True chatResponseRegex b s = None)
 \<and> (\<forall>pre post. chatSplit (b = []) s = Some (pre, post) \<longrightarrow>
       (\<exists>b'. search True chatResponseRegex b s
                = Some (length b + length pre, (b', dropWhile isSpace post, []))))"
proof (induction s arbitrary: b)
  case Nil
  have "rmatch True chatResponseRegex (b, [], []) = []"
    by (simp add: chat_rmatch lit_at_def js_def)
  then show ?case by simp
next
  case (Cons x xs)
  let ?R = "Seq (Lit (js ''Chat Response:'')) (Star Space)"
  consider (start) "b = []" "lit_at True (js ''Chat Response:'') (x # xs)"
    | (line) "\<not> (b = [] \<and> lit_at True (js ''Chat Response:'') (x # xs))"
             "x = 10" "lit_at True (js ''Chat Response:'') xs"
    | (none) "\<not> (b = [] \<and> lit_at True (js ''Chat Response:'') (x # xs))"
             "\<not> (x = 10 \<and> lit_at True (js ''Chat Response:'') xs)"
    by blast
  then show ?case
  proof cases
    case start
    from lit_Seq_Star_hd[OF start(2), of b "[]"] obtain b' rest where
      "rmatch True ?R (b, x # xs, []) = (b', dropWhile isSpace (drop 14 (x # xs)), []) # rest"
      unfolding chat_label_length by blast
    then have "\<exists>rest. rmatch True chatResponseRegex (b, x # xs, [])
        = (b', dropWhile isSpace (drop 14 (x # xs)), []) # rest"
      using start by (simp add: chat_rmatch del: rmatch.simps)
    then obtain rest' where "rmatch True chatResponseRegex (b, x # xs, [])
        = (b', dropWhile isSpace (drop 14 (x # xs)), []) # rest'" by blast
    then have "search True chatResponseRegex b (x # xs)
        = Some (length b, (b', dropWhile isSpace (drop 14 (x # xs)), []))"
      by (simp only: search.simps list.case)
    with start show ?thesis by simp
  next
    case line
    from lit_Seq_Star_hd[OF line(3), of "10 # b" "[]"] obtain b' rest where
      r: "rmatch True ?R (10 # b, xs, []) = (b', dropWhile isSpace (drop 14 xs), []) # rest"
      unfolding chat_label_length by blast
    have "rmatch True ?R (b, x # xs, []) = [] \<or> b \<noteq> []"
      using line(1) by (auto simp only: lit_Seq_Star split: if_splits)
    then have "rmatch True chatResponseRegex (b, x # xs, []) = (b', dropWhile isSpace (drop 14 xs), []) # rest"
      using line(2) r by (auto simp add: chat_rmatch simp del: rmatch.simps)
    then have "search True chatResponseRegex b (x # xs)
        = Some (length b, (b', dropWhile isSpace (drop 14 xs), []))"
      by (simp only: search.simps list.case)
    with line show ?thesis by auto
  next
    case none
    have 1: "rmatch True ?R (b, x # xs, []) = [] \<or> b \<noteq> []"
      using none(1) by (auto simp only: lit_Seq_Star split: if_splits)
    have 2: "rmatch True ?R (10 # b, xs, []) = [] \<or> x \<noteq> 10"
      using none(2) by (auto simp only: lit_Seq_Star split: if_splits)
    have "rmatch True chatResponseRegex (b, x # xs, []) = []"
      using 1 2 by (auto simp add: chat_rmatch simp del: rmatch.simps)
    then have s: "search True chatResponseRegex b (x # xs) = search True chatResponseRegex (x # b) xs"
      by (simp only: search.simps list.case)
    have c: "chatSplit (b = []) (x # xs) =
        (case chatSplit False xs of None \<Rightarrow> None | Some (pre, post) \<Rightarrow> Some (x # pre, post))"
      using none by auto
    from Cons[of "x # b"] show ?thesis
      unfolding s c by (auto split: option.splits)
  qed
qed

lemma chatSplit_prefix:
  "chatSplit f s = Some (pre, post) \<Longrightarrow> prefix pre s"
  by (induction s arbitrary: f pre) (auto split: if_splits option.splits)

lemma chat_text:
  "truthy (preambleOf input) = hasPreamble input" "contentForFacts input = workingText input"
proof -
  have "truthy (preambleOf input) = hasPreamble input \<and> contentForFacts input = workingText input"
  proof (cases "chatSplit True input")
    case None
    with chat_search[of "[]" input] have "re_match True chatResponseRegex input = None"
      by (simp add: re_match_def)
    with None show ?thesis
      by (simp add: preambleOf_def contentForFacts_def hasPreamble_def workingText_def truthy_def)
  next
    case (Some pp)
    obtain pre post where pp: "pp = (pre, post)" by (cases pp)
    with Some chat_search[of "[]" input] obtain b' where
      m: "re_match True chatResponseRegex input = Some (length pre, (b', dropWhile isSpace post, []))"
      by (auto simp: re_match_def)
    then obtain p w a' and c' :: "(nat \<times> jsstring) list" where i: "input = p @ w @ a'"
      and e: "(length pre, (b', dropWhile isSpace post, [])) = (length p, (rev w @ rev p, a', c'))"
      by (rule re_match_Some) blast
    from e have lp: "length p = length pre" and a: "a' = dropWhile isSpace post"
      and m': "re_match True chatResponseRegex input = Some (length p, (rev w @ rev p, a', c'))"
      using m by simp_all
    from chatSplit_prefix[of True input pre post] Some pp have "prefix pre input" by simp
    then obtain z where "input = pre @ z" by (auto simp: prefix_def)
    with i lp have p: "p = pre" by (metis append_eq_append_conv)
    have "preambleOf input = Some (trim p)"
      unfolding preambleOf_def m' by (simp add: m_parts i)
    moreover have "contentForFacts input = a'"
      unfolding contentForFacts_def m' by (simp add: m_parts i)
    ultimately show ?thesis
      using Some pp p a
      by (simp add: hasPreamble_def workingText_def truthy_def trimStart_def)
  qed
  then show "truthy (preambleOf input) = hasPreamble input" "contentForFacts input = workingText input"
    by simp_all
qed

lemma trim_Nil_iff: "trim u = [] \<longleftrightarrow> dropWhile isSpace u = []"
proof
  assume t: "trim u = []"
  show "dropWhile isSpace u = []"
  proof (rule ccontr)
    assume n: "dropWhile isSpace u \<noteq> []"
    then have "\<not> isSpace (hd (dropWhile isSpace u))" by (rule hd_dropWhile)
    moreover have "hd (dropWhile isSpace u) \<in> set (rev (dropWhile isSpace u))"
      using n by simp
    ultimately have "dropWhile isSpace (rev (dropWhile isSpace u)) \<noteq> []"
      by (auto simp: dropWhile_eq_Nil_conv simp del: set_rev)
    with t show False by (simp add: trim_def trimEnd_def trimStart_def)
  qed
next
  assume a: "dropWhile isSpace u = []"
  show "trim u = []" unfolding trim_def trimStart_def a by (simp add: trimEnd_def)
qed

lemma trim_dropWhile: "trim (dropWhile isSpace u) = trim u"
proof -
  have "dropWhile isSpace (dropWhile isSpace u) = dropWhile isSpace u"
    by (metis dropWhile_eq_self_iff hd_dropWhile)
  then show ?thesis by (simp add: trim_def trimStart_def)
qed

lemma trim_nonspace: "\<not> isSpace x \<Longrightarrow> trim (x # w) \<noteq> []"
  by (simp add: trim_Nil_iff)

text \<open>The tail of the sources pattern: the capture is the text after the white space.\<close>

lemma sources_tail_hd:
  "\<exists>b' rest. rmatch True (Seq (Star Space) (Seq (Cap 1 (Star AnyChar)) Eol)) (b, u, [])
      = (b', [], [(1, dropWhile isSpace u)]) # rest"
proof -
  obtain r0 where s: "star_greedy Space b u = (rev (takeWhile isSpace u) @ b, dropWhile isSpace u) # r0"
    using star_greedy_Space_hd by blast
  let ?b2 = "rev (takeWhile isSpace u) @ b" and ?v = "dropWhile isSpace u"
  obtain r1 where a: "star_greedy AnyChar ?b2 ?v = (rev ?v @ ?b2, []) # r1"
    using star_greedy_AnyChar_hd by blast
  have "\<exists>rest. rmatch True (Seq (Cap 1 (Star AnyChar)) Eol) (?b2, ?v, []) = (rev ?v @ ?b2, [], [(1, ?v)]) # rest"
    by (simp add: a)
  then show ?thesis
    by (auto simp add: s simp del: rmatch.simps(7) rmatch.simps(9)
          simp add: rmatch.simps(7)[of True "Star Space"])
qed

lemma sources_tail_nonempty:
  "rmatch True (Seq (Star Space) (Seq (Cap 1 (Star AnyChar)) Eol)) (b, u, []) \<noteq> []"
proof -
  from sources_tail_hd[of b u] obtain b' rest where
    e: "rmatch True (Seq (Star Space) (Seq (Cap 1 (Star AnyChar)) Eol)) (b, u, [])
      = (b', [], [(1, dropWhile isSpace u)]) # rest" by blast
  show ?thesis unfolding e by simp
qed

lemma SOURCES_LABEL_props: "SOURCES_LABEL \<noteq> []" "length SOURCES_LABEL = 8" "\<not> lit_at True SOURCES_LABEL []"
  by (simp_all add: SOURCES_LABEL_def js_def lit_at_def)

lemma sources_match:
  "(afterMarker SOURCES_LABEL s = None \<longrightarrow> re_match True sourcesRegex s = None)
 \<and> (\<forall>u. afterMarker SOURCES_LABEL s = Some u \<longrightarrow>
        (\<exists>m. re_match True sourcesRegex s = Some m \<and> grp 1 m = dropWhile isSpace u))"
proof -
  note sm = search_marker[of "Seq (Star Space) (Seq (Cap 1 (Star AnyChar)) Eol)" SOURCES_LABEL s "[]",
      OF sources_tail_nonempty SOURCES_LABEL_props(1), folded sourcesRegex_def re_match_def]
  show ?thesis
  proof (intro conjI allI impI)
    assume "afterMarker SOURCES_LABEL s = None"
    with sm show "re_match True sourcesRegex s = None" by blast
  next
    fix u assume "afterMarker SOURCES_LABEL s = Some u"
    with sm obtain i b1 where m: "re_match True sourcesRegex s =
        Some (i, hd (rmatch True (Seq (Star Space) (Seq (Cap 1 (Star AnyChar)) Eol)) (b1, u, [])))"
      by blast
    from sources_tail_hd[of b1 u] obtain b' rest where
      "rmatch True (Seq (Star Space) (Seq (Cap 1 (Star AnyChar)) Eol)) (b1, u, [])
         = (b', [], [(1, dropWhile isSpace u)]) # rest" by blast
    then have "hd (rmatch True (Seq (Star Space) (Seq (Cap 1 (Star AnyChar)) Eol)) (b1, u, []))
         = (b', [], [(1, dropWhile isSpace u)])" by (simp only: list.sel)
    with m have "re_match True sourcesRegex s = Some (i, (b', [], [(1, dropWhile isSpace u)]))"
      by simp
    then show "\<exists>m. re_match True sourcesRegex s = Some m \<and> grp 1 m = dropWhile isSpace u"
      by (simp add: grp_def)
  qed
qed

text \<open>The alternatives that end the facts block make no capture.\<close>

lemma facts_end_caps:
  assumes "st' \<in> set (rmatch True (Alt (Seq (Lit [10]) (Seq (Star Space) (Lit SOURCES_LABEL)))
                                      (Alt (Lit SOURCES_LABEL) Eol)) (b, a, c))"
  shows "snd (snd st') = c"
  using assms by (auto split: if_splits)

lemma facts_end_Nil:
  "rmatch True (Alt (Seq (Lit [10]) (Seq (Star Space) (Lit SOURCES_LABEL)))
                    (Alt (Lit SOURCES_LABEL) Eol)) (b, [], c) = [(b, [], c)]"
  by (simp add: lit_at_def SOURCES_LABEL_def js_def)

lemma facts_end_nonspace:
  assumes "\<not> isSpace x"
  shows "rmatch True (Alt (Seq (Lit [10]) (Seq (Star Space) (Lit SOURCES_LABEL)))
                    (Alt (Lit SOURCES_LABEL) Eol)) (b, x # xs, c) =
         (if lit_at True SOURCES_LABEL (x # xs)
          then [(rev (take 8 (x # xs)) @ b, drop 8 (x # xs), c)] else [])"
proof -
  have "x \<noteq> 10" using assms by (auto simp: isSpace_def)
  then have "\<not> lit_at True [10] (x # xs)" by (simp add: lit_newline del: lit_at_def)
  then have "rmatch True (Seq (Lit [10]) (Seq (Star Space) (Lit SOURCES_LABEL))) (b, x # xs, c) = []"
    by (simp only: rmatch.simps if_False list.map concat.simps)
  moreover have "rmatch True Eol (b, x # xs, c) = []" by simp
  moreover have "rmatch True (Lit SOURCES_LABEL) (b, x # xs, c) =
      (if lit_at True SOURCES_LABEL (x # xs)
          then [(rev (take 8 (x # xs)) @ b, drop 8 (x # xs), c)] else [])"
    by (simp only: rmatch.simps SOURCES_LABEL_props)
  ultimately show ?thesis
    by (simp only: rmatch.simps(8) append_Nil append_Nil2)
qed

text \<open>
  The capture of the facts pattern. After the label and the white space the lazy star
  stops at the first place where the block can end. When the text there is empty or
  begins with the sources label the capture is empty; otherwise the capture begins with
  the first character of that text, which is no white space.
\<close>

lemma facts_tail_hd:
  fixes u b
  defines "v \<equiv> dropWhile isSpace u"
  defines "st \<equiv> hd (rmatch True (Seq (Star Space) (Seq (Cap 1 (LazyStar AnyChar))
       (Alt (Seq (Lit [10]) (Seq (Star Space) (Lit SOURCES_LABEL))) (Alt (Lit SOURCES_LABEL) Eol))))
       (b, u, []))"
  shows "v = [] \<Longrightarrow> fst (snd st) = [] \<and> snd (snd st) = [(1, [])]"
    and "v \<noteq> [] \<Longrightarrow> lit_at True SOURCES_LABEL v \<Longrightarrow> snd (snd st) = [(1, [])]"
    and "v \<noteq> [] \<Longrightarrow> \<not> lit_at True SOURCES_LABEL v \<Longrightarrow> \<exists>w. snd (snd st) = [(1, hd v # w)]"
proof -
  let ?A = "Alt (Seq (Lit [10]) (Seq (Star Space) (Lit SOURCES_LABEL))) (Alt (Lit SOURCES_LABEL) Eol)"
  let ?R = "Seq (Cap 1 (LazyStar AnyChar)) ?A"
  let ?b2 = "rev (takeWhile isSpace u) @ b"
  obtain r0 where s: "star_greedy Space b u = (?b2, v) # r0"
    using star_greedy_Space_hd v_def by blast
  have R_ne: "rmatch True ?R (b', a', []) \<noteq> []" for b' a'
  proof -
    have 2: "(rev a' @ b', [], (1, rev (take (length (rev a' @ b') - length b') (rev a' @ b'))) # [])
             \<in> set (rmatch True (Cap 1 (LazyStar AnyChar)) (b', a', []))"
      using star_lazy_any_end[of a' b'] by force
    have 3: "rmatch True ?A (rev a' @ b', [], c') \<noteq> []" for c'
      by (simp only: facts_end_Nil) simp
    show ?thesis
      by (rule rmatch_Seq_nonempty[OF 2 3])
  qed
  have "\<exists>rest. rmatch True (Seq (Star Space) ?R) (b, u, []) = rmatch True ?R (?b2, v, []) @ rest"
    by (simp add: s del: rmatch.simps(7) rmatch.simps(8) rmatch.simps(9)
          add: rmatch.simps(7)[of True "Star Space"])
  then have st: "st = hd (rmatch True ?R (?b2, v, []))"
    unfolding st_def using R_ne[of ?b2 v] by (auto simp del: rmatch.simps)
  have R: "rmatch True ?R (?b2, a, []) =
      concat (map (\<lambda>(b', a'). rmatch True ?A (b', a', [(1, rev (take (length b' - length ?b2) b'))]))
        (star_lazy AnyChar ?b2 a))" for a
    by (simp add: comp_def case_prod_unfold del: rmatch.simps(8) rmatch.simps(1) rmatch.simps(11)
          add: rmatch.simps(7)[of True "Cap 1 (LazyStar AnyChar)"])
  {
    assume "v = []"
    then have "rmatch True ?R (?b2, v, []) = [(?b2, [], [(1, [])])]"
      by (simp only: R star_lazy.simps list.map prod.case facts_end_Nil) simp
    then show "fst (snd st) = [] \<and> snd (snd st) = [(1, [])]"
      unfolding st by simp
  }
  {
    assume ne: "v \<noteq> []"
    then obtain x xs where v: "v = x # xs" by (cases v) auto
    have x: "\<not> isSpace x"
      using hd_dropWhile[of isSpace u] ne v unfolding v_def by auto
    have any: "in_cset AnyChar x" by (simp add: AnyChar_def)
    have split: "rmatch True ?R (?b2, v, []) =
        (if lit_at True SOURCES_LABEL v then [(rev (take 8 v) @ ?b2, drop 8 v, [(1, [])])] else [])
        @ concat (map (\<lambda>(b', a'). rmatch True ?A (b', a', [(1, rev (take (length b' - length ?b2) b'))]))
            (star_lazy AnyChar (x # ?b2) xs))"
      unfolding v R
      by (simp only: star_lazy.simps any if_True list.map prod.case concat.simps
            facts_end_nonspace[OF x]) simp
    {
      assume "lit_at True SOURCES_LABEL v"
      then show "snd (snd st) = [(1, [])]"
        unfolding st split by simp
    }
    {
      assume "\<not> lit_at True SOURCES_LABEL v"
      then have e: "rmatch True ?R (?b2, v, []) =
          concat (map (\<lambda>(b', a'). rmatch True ?A (b', a', [(1, rev (take (length b' - length ?b2) b'))]))
            (star_lazy AnyChar (x # ?b2) xs))"
        unfolding split by simp
      have "st \<in> set (rmatch True ?R (?b2, v, []))"
        unfolding st using R_ne[of ?b2 v] by (simp del: rmatch.simps)
      then obtain b' a' where m: "(b', a') \<in> set (star_lazy AnyChar (x # ?b2) xs)"
        and m2: "st \<in> set (rmatch True ?A (b', a', [(1, rev (take (length b' - length ?b2) b'))]))"
        unfolding e by (auto simp del: rmatch.simps)
      from star_lazy_sound[OF m] obtain w where "b' = rev w @ x # ?b2" by blast
      then have "rev (take (length b' - length ?b2) b') = x # w" by simp
      with facts_end_caps[OF m2] have "snd (snd st) = [(1, hd v # w)]"
        using v by simp
      then show "\<exists>w. snd (snd st) = [(1, hd v # w)]" by blast
    }
  }
qed

lemma facts_match:
  "(afterMarker FACTS_LABEL s = None \<longrightarrow> re_match True factsRegex s = None)
 \<and> (\<forall>u. afterMarker FACTS_LABEL s = Some u \<longrightarrow>
       (\<exists>i b1. re_match True factsRegex s =
          Some (i, hd (rmatch True (Seq (Star Space) (Seq (Cap 1 (LazyStar AnyChar))
       (Alt (Seq (Lit [10]) (Seq (Star Space) (Lit SOURCES_LABEL))) (Alt (Lit SOURCES_LABEL) Eol))))
       (b1, u, [])))))"
  by (rule search_marker[of _ FACTS_LABEL s "[]", OF facts_tail_nonempty FACTS_LABEL_hd(1),
      folded factsRegex_def re_match_def])

lemma extractBlocks_facts:
  "fst (extractBlocks t) =
     (case re_match True factsRegex t of None \<Rightarrow> None | Some m \<Rightarrow> Some (trim (grp 1 m)))"
  by (simp add: extractBlocks_def Let_def)

lemma extractBlocks_sources:
  "fst (snd (extractBlocks t)) =
     (case re_match True factsRegex t of
        Some m \<Rightarrow>
          (case re_match True sourcesRegex (drop (m_index m + length (m_text m) - length (grp 1 m)) t) of
             None \<Rightarrow> None
           | Some sm \<Rightarrow> Some (trim (grp 1 sm)))
      | None \<Rightarrow>
          (case re_match True sourcesRegex t of
             None \<Rightarrow> None
           | Some sm \<Rightarrow> Some (trim (grp 1 sm))))"
  by (simp add: extractBlocks_def Let_def split: option.splits)

text \<open>The facts block is there and not empty exactly when facts text follows the marker.\<close>

lemma factsBlock_truthy: "truthy (fst (extractBlocks t)) \<longleftrightarrow> hasFactsText t"
proof (cases "afterMarker FACTS_LABEL t")
  case None
  with facts_match[of t] have "re_match True factsRegex t = None" by blast
  with None show ?thesis
    by (simp add: extractBlocks_facts hasFactsText_def truthy_def)
next
  case (Some u)
  let ?T = "Seq (Star Space) (Seq (Cap 1 (LazyStar AnyChar))
       (Alt (Seq (Lit [10]) (Seq (Star Space) (Lit SOURCES_LABEL))) (Alt (Lit SOURCES_LABEL) Eol)))"
  from Some facts_match[of t] obtain i b1 where
    m: "re_match True factsRegex t = Some (i, hd (rmatch True ?T (b1, u, [])))"
    by blast
  define st where "st = hd (rmatch True ?T (b1, u, []))"
  have g: "grp 1 (i, st) = (case map_of (snd (snd st)) 1 of None \<Rightarrow> [] | Some g \<Rightarrow> g)"
    by (simp add: grp_def)
  have f: "fst (extractBlocks t) = Some (trim (grp 1 (i, st)))"
    unfolding extractBlocks_facts m st_def by simp
  let ?v = "dropWhile isSpace u"
  consider (blank) "?v = []" | (src) "?v \<noteq> []" "lit_at True SOURCES_LABEL ?v"
    | (facts) "?v \<noteq> []" "\<not> lit_at True SOURCES_LABEL ?v" by blast
  then show ?thesis
  proof cases
    case blank
    from facts_tail_hd(1)[OF blank, of b1] have "snd (snd st) = [(1, [])]"
      unfolding st_def by simp
    then have "grp 1 (i, st) = []" unfolding g by simp
    then show ?thesis
      using blank Some by (simp add: f hasFactsText_def truthy_def trimStart_def trim_Nil_iff)
  next
    case src
    from facts_tail_hd(2)[OF src, of b1] have "snd (snd st) = [(1, [])]"
      unfolding st_def by simp
    then have "grp 1 (i, st) = []" unfolding g by simp
    then show ?thesis
      using src Some by (simp add: f hasFactsText_def truthy_def trimStart_def trim_Nil_iff)
  next
    case facts
    from facts_tail_hd(3)[OF facts, of b1] obtain w where "snd (snd st) = [(1, hd ?v # w)]"
      unfolding st_def by blast
    then have "grp 1 (i, st) = hd ?v # w" unfolding g by simp
    moreover have "\<not> isSpace (hd ?v)" using facts(1) by (rule hd_dropWhile)
    ultimately have "trim (grp 1 (i, st)) \<noteq> []" by (simp only: trim_nonspace not_False_eq_True)
    then show ?thesis
      using facts Some by (simp add: f hasFactsText_def truthy_def trimStart_def)
  qed
qed

text \<open>Without a facts marker the sources block is the trimmed text after the sources marker.\<close>

lemma sourcesBlock_truthy:
  assumes "afterMarker FACTS_LABEL t = None"
  shows "truthy (fst (snd (extractBlocks t))) \<longleftrightarrow> hasSourcesText t"
proof -
  from assms facts_match[of t] have n: "re_match True factsRegex t = None" by blast
  show ?thesis
  proof (cases "afterMarker SOURCES_LABEL t")
    case None
    with sources_match[of t] have "re_match True sourcesRegex t = None" by blast
    with None n show ?thesis
      by (simp add: extractBlocks_sources hasSourcesText_def truthy_def)
  next
    case (Some u)
    with sources_match[of t] obtain m where "re_match True sourcesRegex t = Some m"
      "grp 1 m = dropWhile isSpace u" by blast
    with Some n show ?thesis
      by (simp add: extractBlocks_sources hasSourcesText_def truthy_def trim_dropWhile
          del: One_nat_def)
  qed
qed

text \<open>
  When only white space follows the facts marker, the facts match runs to the end of the
  text with an empty capture, and the search for the sources starts at the end.
\<close>

lemma sourcesBlock_blank_facts:
  assumes "afterMarker FACTS_LABEL t = Some u" "trim u = []"
  shows "fst (snd (extractBlocks t)) = None"
proof -
  let ?T = "Seq (Star Space) (Seq (Cap 1 (LazyStar AnyChar))
       (Alt (Seq (Lit [10]) (Seq (Star Space) (Lit SOURCES_LABEL))) (Alt (Lit SOURCES_LABEL) Eol)))"
  from assms(1) facts_match[of t] obtain i b1 where
    m: "re_match True factsRegex t = Some (i, hd (rmatch True ?T (b1, u, [])))"
    by blast
  define st where "st = hd (rmatch True ?T (b1, u, []))"
  from assms(2) have "dropWhile isSpace u = []" by (simp only: trim_Nil_iff)
  from facts_tail_hd(1)[OF this, of b1] have st: "fst (snd st) = []" "snd (snd st) = [(1, [])]"
    unfolding st_def by simp_all
  from m obtain p w a' c' where t: "t = p @ w @ a'"
    and e: "(i, st) = (length p, (rev w @ rev p, a', c'))"
    unfolding st_def[symmetric] by (rule re_match_Some) blast
  from e st have a: "a' = []" and c: "c' = [(1, [])]" by auto
  have m': "re_match True factsRegex t = Some (length p, (rev w @ rev p, a', c'))"
    using m e unfolding st_def[symmetric] by simp
  have "grp 1 (length p, (rev w @ rev p, a', c')) = []"
    by (simp add: grp_def c)
  then have d: "drop (m_index (length p, (rev w @ rev p, a', c'))
              + length (m_text (length p, (rev w @ rev p, a', c')))
              - length (grp 1 (length p, (rev w @ rev p, a', c')))) t = []"
    by (simp only: m_parts) (simp add: t a)
  have "re_match True sourcesRegex [] = None"
    by (simp add: re_match_def sourcesRegex_def SOURCES_LABEL_props del: lit_at_def)
  then show ?thesis
    unfolding extractBlocks_sources m' by (simp only: option.case d)
qed

lemma parse_None_iff:
  "parseRetrievedFacts input = None \<longleftrightarrow>
      input = [] \<or> (\<not> truthy (preambleOf input)
                   \<and> \<not> truthy (fst (extractBlocks (contentForFacts input)))
                   \<and> \<not> truthy (fst (snd (extractBlocks (contentForFacts input)))))"
  by (auto simp: parseRetrievedFacts_def Let_def split: prod.splits)

lemma chatSplit_Nil: "\<not> hasPreamble []" "workingText [] = []"
  by (simp_all add: hasPreamble_def workingText_def)

lemma parse_None_text:
  "parseRetrievedFacts input = None \<longleftrightarrow>
      \<not> hasPreamble input \<and> \<not> hasFactsText (workingText input)
      \<and> \<not> truthy (fst (snd (extractBlocks (workingText input))))"
proof (cases "input = []")
  case True
  have "extractBlocks [] = (None, None, [])"
    by (simp add: extractBlocks_def Let_def re_match_def factsRegex_def sourcesRegex_def
        FACTS_LABEL_hd SOURCES_LABEL_props del: lit_at_def)
       (simp add: lit_at_def FACTS_LABEL_def js_def)
  with True show ?thesis
    by (simp add: parse_None_iff chatSplit_Nil hasFactsText_def truthy_def)
next
  case False
  then show ?thesis
    by (simp add: parse_None_iff chat_text factsBlock_truthy)
qed

section \<open>The parser on the example inputs\<close>

lemmas rx_defs = re_match_def lit_at_def canon_def js_def isSpace_def isDigit_def isWord_def
  headIsWord_def m_index_def m_end_def m_text_def grp_def AnyChar_def exec_all.simps
  remove_all_def remove_first_def trim_def trimStart_def trimEnd_def

lemmas entity_defs = parseEntity_def typeLabelRegex_def keyValueRegex_def obj_set_def makeNodeId_def
  plainNode_def

lemma c2_chat: "re_match True chatResponseRegex c2_input = None"
  by (simp add: c2_input_def chatResponseRegex_def rx_defs)

lemma c2_blocks: "extractBlocks c2_input = (Some c2_facts, Some (js ''[1] https://a.com''), [])"
  by (simp add: c2_input_def c2_facts_def rx_defs extractBlocks_def factsRegex_def sourcesRegex_def
      FACTS_LABEL_def SOURCES_LABEL_def lastIndexOf_def)

lemma c2_sourcesMap: "parseSourcesMap (Some (js ''[1] https://a.com'')) = c2_sources"
  by (simp add: parseSourcesMap_def sourceEntryRegex_def rx_defs parseInt_def digitsValue_def
      c2_sources_def)

lemma c2_items: "rawItems c2_facts = [c2_item]"
  by (simp add: rawItems_def c2_facts_def c2_item_def rx_defs)

lemma c2_left: \<open>parseEntity (js ''service:"risk mgmt"'') = Some c2_service\<close>
  by (simp add: parseEntity_def typeLabelRegex_def keyValueRegex_def rx_defs obj_set_def
      makeNodeId_def c2_service_def plainNode_def) (simp add: Let_def)

lemma c2_right: \<open>parseEntity (js ''risk:"fraud"'') = Some c2_risk\<close>
  by (simp add: parseEntity_def typeLabelRegex_def keyValueRegex_def rx_defs obj_set_def
      makeNodeId_def c2_risk_def plainNode_def) (simp add: Let_def)

lemma c2_triple:
  \<open>map_option (\<lambda>tm. (grp 1 tm, grp 2 tm, grp 3 tm)) (re_match False tripleRegex c2_item)
     = Some (js ''service:"risk mgmt"'', js ''ADDRESSES'', js ''risk:"fraud"'')\<close>
  by (simp add: c2_item_def tripleRegex_def rx_defs)

lemma c2_cites:
  "map m_text (exec_all False sourceIdxRegex [] c2_item) = [js ''[1]'']"
  by (simp add: c2_item_def sourceIdxRegex_def rx_defs)

lemma cite_url: "parseInt (remove_all False bracketRegex (js ''[1]'')) = None"
  by (simp add: bracketRegex_def rx_defs parseInt_def)

lemma cite_index: "parseInt (filter isDigit (js ''[1]'')) = Some 1"
  by (simp add: rx_defs parseInt_def digitsValue_def)

lemma c2_bullet:
  "parseBullet c2_sources c2_item = Some (c2_service, c2_risk, js ''ADDRESSES'', [], [1])"
proof -
  from c2_triple obtain tm where tm: "re_match False tripleRegex c2_item = Some tm"
    and g: \<open>grp (Suc 0) tm = js ''service:"risk mgmt"''\<close> "grp 2 tm = js ''ADDRESSES''"
      \<open>grp 3 tm = js ''risk:"fraud"''\<close>
    by auto
  have t: "trim (js ''ADDRESSES'') = js ''ADDRESSES''"
    by (simp add: rx_defs)
  show ?thesis
    by (simp add: parseBullet_def Let_def tm g c2_left c2_right c2_cites cite_url cite_index
        List.map_filter_simps t)
qed

lemma c2_bullets: "parseFactsBullets c2_facts c2_sources = ([c2_service, c2_risk], [c2_edge])"
  by (simp add: parseFactsBullets_def c2_items bulletStep_def c2_bullet Let_def setIfAbsent_def
      c2_service_def c2_risk_def plainNode_def makeNodeId_def c2_edge_def js_def showNat.simps)

lemma c2_parse:
  "parseRetrievedFacts c2_input = Some c2_result"
proof -
  have ne: "c2_input \<noteq> []" by (simp add: c2_input_def)
  have p: "preambleOf c2_input = None" "contentForFacts c2_input = c2_input"
    by (simp_all add: preambleOf_def contentForFacts_def c2_chat)
  have tr: "truthy (Some c2_facts)" by (simp add: truthy_def c2_facts_def)
  have ty: "sortedDistinct [n_type c2_service, n_type c2_risk] = [js ''risk'', js ''service'']"
    by (simp add: sortedDistinct_def c2_service_def c2_risk_def plainNode_def js_def)
  show ?thesis
    by (simp add: parseRetrievedFacts_def ne p c2_blocks c2_sourcesMap tr c2_bullets ty Let_def
        c2_result_def)
qed

lemma c8_chat: "re_match True chatResponseRegex c8_input = None"
  by (simp add: c8_input_def chatResponseRegex_def rx_defs)

lemma c8_blocks: "extractBlocks c8_input = (Some (js ''y''), None, js ''Sources: x'')"
  by (simp add: c8_input_def rx_defs extractBlocks_def factsRegex_def sourcesRegex_def
      FACTS_LABEL_def SOURCES_LABEL_def lastIndexOf_def)

lemma c8_bullets: "parseFactsBullets (js ''y'') [] = ([], [])"
  by (simp add: parseFactsBullets_def rawItems_def bulletStep_def parseBullet_def tripleRegex_def
      sourceIdxRegex_def rx_defs List.map_filter_simps)

lemma c8_parse: "parseRetrievedFacts c8_input = Some c8_result"
proof -
  have ne: "c8_input \<noteq> []" by (simp add: c8_input_def)
  have p: "preambleOf c8_input = None" "contentForFacts c8_input = c8_input"
    by (simp_all add: preambleOf_def contentForFacts_def c8_chat)
  have tr: "truthy (Some (js ''y''))" by (simp add: truthy_def js_def)
  show ?thesis
    by (simp add: parseRetrievedFacts_def ne p c8_blocks tr c8_bullets Let_def c8_result_def
        parseSourcesMap_def sortedDistinct_def)
qed

lemma parse_hello: "parseRetrievedFacts (js ''hello'') = None"
  by (simp add: parseRetrievedFacts_def preambleOf_def contentForFacts_def chatResponseRegex_def
      extractBlocks_def factsRegex_def sourcesRegex_def FACTS_LABEL_def SOURCES_LABEL_def rx_defs
      truthy_def)

lemma parse_label_only: "parseRetrievedFacts (js ''Retrieved Facts:'') = None"
  by (simp add: parseRetrievedFacts_def preambleOf_def contentForFacts_def chatResponseRegex_def
      extractBlocks_def factsRegex_def sourcesRegex_def FACTS_LABEL_def SOURCES_LABEL_def rx_defs
      truthy_def lastIndexOf_def parseSourcesMap_def)

lemma c1_chat: "re_match True chatResponseRegex c1_input = None"
  by (simp add: c1_input_def chatResponseRegex_def rx_defs)

lemma c1_blocks: "extractBlocks c1_input = (Some c1_facts, None, [])"
  by (simp add: c1_input_def c1_facts_def rx_defs extractBlocks_def factsRegex_def sourcesRegex_def
      FACTS_LABEL_def SOURCES_LABEL_def lastIndexOf_def)

lemma c1_items: "rawItems c1_facts = [c1_item1, c1_item2]"
  by (simp add: rawItems_def c1_facts_def c1_item1_def c1_item2_def rx_defs)

lemma c1_entity_url: \<open>parseEntity (js ''a:"x" url=u'') = Some c1_a_url\<close>
  by (simp add: entity_defs rx_defs c1_a_url_def) (simp add: Let_def)

lemma c1_entity_page: \<open>parseEntity (js ''a:"x" page=p'') = Some c1_a_page\<close>
  by (simp add: entity_defs rx_defs c1_a_page_def) (simp add: Let_def)

lemma c1_entity_b: \<open>parseEntity (js ''b:"y"'') = Some c1_b\<close>
  by (simp add: entity_defs rx_defs c1_b_def) (simp add: Let_def)

lemma c1_triple1:
  \<open>map_option (\<lambda>tm. (grp (Suc 0) tm, grp 2 tm, grp 3 tm)) (re_match False tripleRegex c1_item1)
     = Some (js ''a:"x" url=u'', js ''R'', js ''b:"y"'')\<close>
  by (simp add: c1_item1_def tripleRegex_def rx_defs)

lemma c1_triple2:
  \<open>map_option (\<lambda>tm. (grp (Suc 0) tm, grp 2 tm, grp 3 tm)) (re_match False tripleRegex c1_item2)
     = Some (js ''a:"x" page=p'', js ''R'', js ''b:"y"'')\<close>
  by (simp add: c1_item2_def tripleRegex_def rx_defs)

lemma c1_cites:
  "exec_all False sourceIdxRegex [] c1_item1 = []" "exec_all False sourceIdxRegex [] c1_item2 = []"
  by (simp_all add: c1_item1_def c1_item2_def sourceIdxRegex_def rx_defs)

lemma trim_R: "trim (js ''R'') = js ''R''"
  by (simp add: rx_defs)

lemma c1_bullet1: "parseBullet [] c1_item1 = Some (c1_a_url, c1_b, js ''R'', [], [])"
proof -
  from c1_triple1 obtain tm where tm: "re_match False tripleRegex c1_item1 = Some tm"
    and g: \<open>grp (Suc 0) tm = js ''a:"x" url=u''\<close> "grp 2 tm = js ''R''" \<open>grp 3 tm = js ''b:"y"''\<close>
    by auto
  show ?thesis
    by (simp add: parseBullet_def Let_def tm g c1_entity_url c1_entity_b c1_cites
        List.map_filter_simps trim_R)
qed

lemma c1_bullet2: "parseBullet [] c1_item2 = Some (c1_a_page, c1_b, js ''R'', [], [])"
proof -
  from c1_triple2 obtain tm where tm: "re_match False tripleRegex c1_item2 = Some tm"
    and g: \<open>grp (Suc 0) tm = js ''a:"x" page=p''\<close> "grp 2 tm = js ''R''" \<open>grp 3 tm = js ''b:"y"''\<close>
    by auto
  show ?thesis
    by (simp add: parseBullet_def Let_def tm g c1_entity_page c1_entity_b c1_cites
        List.map_filter_simps trim_R)
qed

lemma c1_bullets: "parseFactsBullets c1_facts [] = ([c1_a_url, c1_b], c1_edges)"
  by (simp add: parseFactsBullets_def c1_items bulletStep_def c1_bullet1 c1_bullet2 Let_def
      setIfAbsent_def c1_a_url_def c1_a_page_def c1_b_def plainNode_def makeNodeId_def c1_edges_def
      js_def showNat.simps)

lemma c1_occurrences:
  "entityOccurrences [] (rawItems c1_facts) = [c1_a_url, c1_b, c1_a_page, c1_b]"
  by (simp add: entityOccurrences_def c1_items c1_bullet1 c1_bullet2)

lemma c1_parse: "parseRetrievedFacts c1_input = Some c1_result"
proof -
  have ne: "c1_input \<noteq> []" by (simp add: c1_input_def)
  have p: "preambleOf c1_input = None" "contentForFacts c1_input = c1_input"
    by (simp_all add: preambleOf_def contentForFacts_def c1_chat)
  have tr: "truthy (Some c1_facts)" by (simp add: truthy_def c1_facts_def)
  have ty: "sortedDistinct [n_type c1_a_url, n_type c1_b] = [js ''a'', js ''b'']"
    by (simp add: sortedDistinct_def c1_a_url_def c1_b_def plainNode_def js_def)
  show ?thesis
    by (simp add: parseRetrievedFacts_def ne p c1_blocks tr c1_bullets ty Let_def c1_result_def
        parseSourcesMap_def)
qed

lemma trim_c10: "trim c10_line = c10_line"
  by (simp add: c10_line_def rx_defs)

lemma c10_entity:
  "parseEntityG [] c10_line = (Some (plainNode (js ''a'') (js ''x'')), [(js ''a:x'', plainNode (js ''a'') (js ''x''))])"
  by (simp add: parseEntityG_def groupedEntityRegex_def c10_line_def rx_defs Let_def makeNodeId_def)

lemma c1_input_occurrences: "occurrencesOf c1_input = [c1_a_url, c1_b, c1_a_page, c1_b]"
proof -
  have p: "contentForFacts c1_input = c1_input"
    by (simp add: contentForFacts_def c1_chat)
  have tr: "truthy (Some c1_facts)" by (simp add: truthy_def c1_facts_def)
  show ?thesis
    by (simp add: occurrencesOf_def p c1_blocks tr parseSourcesMap_def c1_occurrences)
qed

text \<open>The example texts of the null result, read as texts.\<close>

lemmas text_defs = workingText_def hasFactsText_def hasSourcesText_def hasPreamble_def
  lit_at_def canon_def js_def FACTS_LABEL_def SOURCES_LABEL_def trim_def trimStart_def
  trimEnd_def isSpace_def

lemma text_facts:
  "\<not> hasPreamble (js ''Retrieved Facts: x'')"
  "workingText (js ''Retrieved Facts: x'') = js ''Retrieved Facts: x''"
  "hasFactsText (js ''Retrieved Facts: x'')"
  by (simp_all add: text_defs)

lemma text_sources:
  "\<not> hasPreamble (js ''Sources: [1] http://u'')"
  "workingText (js ''Sources: [1] http://u'') = js ''Sources: [1] http://u''"
  "afterMarker FACTS_LABEL (js ''Sources: [1] http://u'') = None"
  "hasSourcesText (js ''Sources: [1] http://u'')"
  by (simp_all add: text_defs)

lemma text_blank:
  "\<not> hasPreamble (js ''Retrieved Facts: '')"
  "workingText (js ''Retrieved Facts: '') = js ''Retrieved Facts: ''"
  "afterMarker FACTS_LABEL (js ''Retrieved Facts: '') = Some (js '' '')"
  "trim (js '' '') = []"
  by (simp_all add: text_defs)

lemma text_preamble:
  "hasPreamble (js ''note'' @ [10] @ js ''Chat Response: hi'')"
  "workingText (js ''note'' @ [10] @ js ''Chat Response: hi'') = js ''hi''"
  by (simp_all add: text_defs)

lemma text_hello:
  "\<not> containsCI FACTS_LABEL (js ''hello'')" "\<not> containsCI SOURCES_LABEL (js ''hello'')"
  "\<not> containsCI (js ''Chat Response:'') (js ''hello'')"
  by (simp_all add: containsCI_def FACTS_LABEL_def SOURCES_LABEL_def js_def canon_def
        sublist_Cons_right)

text \<open>
  A source list right after the facts marker. The facts match ends behind the sources
  marker with an empty capture, so the search for the sources, which starts at the end of
  the match less the length of the capture, starts behind the marker and finds none: the
  list is not seen.
\<close>

lemma facts_then_sources:
  "extractBlocks (js ''Retrieved Facts: Sources: [1] http://u'') = (Some [], None, [])"
  "parseRetrievedFacts (js ''Retrieved Facts: Sources: [1] http://u'') = None"
proof -
  show e: "extractBlocks (js ''Retrieved Facts: Sources: [1] http://u'') = (Some [], None, [])"
    by (simp add: rx_defs extractBlocks_def factsRegex_def sourcesRegex_def
        FACTS_LABEL_def SOURCES_LABEL_def lastIndexOf_def)
  have c: "re_match True chatResponseRegex (js ''Retrieved Facts: Sources: [1] http://u'') = None"
    by (simp add: chatResponseRegex_def rx_defs)
  have ne: "js ''Retrieved Facts: Sources: [1] http://u'' \<noteq> []" by (simp add: js_def)
  show "parseRetrievedFacts (js ''Retrieved Facts: Sources: [1] http://u'') = None"
    by (simp add: parseRetrievedFacts_def ne preambleOf_def contentForFacts_def c e truthy_def
        parseSourcesMap_def)
qed

section \<open>Properties of the fact text parser\<close>

text \<open>
  The nodes of a result are the node table of the bullets of the input's facts block,
  none when that block is absent or empty.
\<close>

lemma parse_nodes:
  assumes "parseRetrievedFacts input = Some r"
  shows "pf_nodes r =
     (case extractBlocks (contentForFacts input) of
        (factsBlock, sourcesBlock, _) \<Rightarrow>
          if truthy factsBlock
          then fst (parseFactsBullets (the factsBlock) (parseSourcesMap sourcesBlock))
          else [])"
  using assms
  by (auto simp: parseRetrievedFacts_def Let_def split: if_splits prod.splits)

text \<open>
  C1, as the code has it. In the result of \<open>parseRetrievedFacts\<close> the node ids are pairwise
  distinct, and so are the (type, label) pairs: two occurrences of the same pair yield one
  node. The ids of the nodes are exactly the ids of the entities that occur in the
  well-formed bullets of the input's facts block, and each node is the entity parsed from
  the first occurrence of its id, as it was parsed there: a later occurrence adds nothing
  to it.
\<close>

theorem node_merge:
  assumes "parseRetrievedFacts input = Some r"
  shows "distinct (map n_id (pf_nodes r))
       \<and> distinct (map (\<lambda>n. (n_type n, n_label n)) (pf_nodes r))
       \<and> n_id ` set (pf_nodes r) = n_id ` set (occurrencesOf input)
       \<and> (\<forall>n \<in> set (pf_nodes r).
             find (\<lambda>e. n_id e = n_id n) (occurrencesOf input) = Some n)"
proof -
  obtain fb sb ct where eb: "extractBlocks (contentForFacts input) = (fb, sb, ct)"
    by (cases "extractBlocks (contentForFacts input)")
  show ?thesis
  proof (cases "truthy fb")
    case False
    with parse_nodes[OF assms] eb show ?thesis
      by (simp add: occurrencesOf_def)
  next
    case True
    obtain ns es where pb: "parseFactsBullets (the fb) (parseSourcesMap sb) = (ns, es)"
      by (cases "parseFactsBullets (the fb) (parseSourcesMap sb)")
    from parse_nodes[OF assms] eb True pb have n: "pf_nodes r = ns" by simp
    from eb True have o: "occurrencesOf input = entityOccurrences (parseSourcesMap sb) (rawItems (the fb))"
      by (simp add: occurrencesOf_def)
    from parseFactsBullets_inv[OF pb] parseFactsBullets_distinct[OF pb]
    show ?thesis unfolding n o by blast
  qed
qed

theorem node_merge_witness:
  "distinct (map n_id (pf_nodes c1_result))
   \<and> distinct (map (\<lambda>n. (n_type n, n_label n)) (pf_nodes c1_result))
   \<and> occurrencesOf c1_input = [c1_a_url, c1_b, c1_a_page, c1_b]
   \<and> n_id ` set (pf_nodes c1_result) = n_id ` set [c1_a_url, c1_b, c1_a_page, c1_b]
   \<and> find (\<lambda>e. n_id e = n_id c1_a_url) [c1_a_url, c1_b, c1_a_page, c1_b] = Some c1_a_url
   \<and> find (\<lambda>e. n_id e = n_id c1_b) [c1_a_url, c1_b, c1_a_page, c1_b] = Some c1_b"
proof -
  have n: "pf_nodes c1_result = [c1_a_url, c1_b]"
    by (simp add: c1_result_def)
  from node_merge [OF c1_parse] show ?thesis
    unfolding c1_input_occurrences n by simp
qed

text \<open>
  The second bullet of the example gives \<open>a:"x"\<close> a page; the one node of that pair in the
  result has none.
\<close>

theorem node_merge_counterexample:
  "parseRetrievedFacts c1_input = Some c1_result
   \<and> entityOccurrences [] (rawItems c1_facts) = [c1_a_url, c1_b, c1_a_page, c1_b]
   \<and> (n_type c1_a_page, n_label c1_a_page) = (n_type c1_a_url, n_label c1_a_url)
   \<and> n_page c1_a_page = Some (js ''p'')
   \<and> pf_nodes c1_result = [c1_a_url, c1_b]
   \<and> n_page c1_a_url = None \<and> n_page c1_b = None"
  by (simp add: c1_parse c1_occurrences)
     (simp add: c1_result_def c1_a_url_def c1_a_page_def c1_b_def plainNode_def)

text \<open>
  C2. On the example of the specification the parser returns the two nodes, the one edge
  from \<open>service:risk mgmt\<close> to \<open>risk:fraud\<close> with label \<open>ADDRESSES\<close> and citation index 1, and
  the source table that maps 1 to the URL; but the edge carries no citation URL: the
  pattern that should strip the brackets of \<open>[1]\<close> matches nothing, \<open>parseInt\<close> of \<open>[1]\<close> is
  NaN, and the lookup in the source table fails.
\<close>

theorem retrieved_facts_example:
  "parseRetrievedFacts c2_input = Some c2_result
   \<and> pf_nodes c2_result = [plainNode (js ''service'') (js ''risk mgmt''), plainNode (js ''risk'') (js ''fraud'')]
   \<and> map (\<lambda>e. (e_source e, e_target e, e_label e)) (pf_edges c2_result)
       = [(js ''service:risk mgmt'', js ''risk:fraud'', js ''ADDRESSES'')]
   \<and> map e_sourceIndices (pf_edges c2_result) = [Some [1]]
   \<and> map e_sources (pf_edges c2_result) = [None]
   \<and> pf_sourceIndexToUrl c2_result = [(1, js ''https://a.com'')]"
  by (simp add: c2_parse)
     (simp add: c2_result_def c2_service_def c2_risk_def c2_edge_def c2_sources_def)

text \<open>
  C3, as the code has it. The preamble is the text before the first label
  \<open>Chat Response:\<close> that stands at the start of the input or of a line, and the working text
  is the input after that label and the white space behind it, the whole input when there
  is no such label. An input that contains none of the three markers gives null. The
  result is not null when the preamble is not blank, and when in the working text the
  first facts marker is followed, white space aside, by text that does not begin with the
  sources marker. When the working text has no facts marker, the result is null exactly
  when the preamble is absent or blank and the working text has no sources marker or only
  white space after the first one. When only white space follows the first facts marker
  of the working text, the result is null exactly when the preamble is absent or blank.
  The property leaves out the working texts in which the sources marker follows the first
  facts marker with nothing but white space between them.
\<close>

theorem null_result:
  "(\<not> containsCI FACTS_LABEL input \<and> \<not> containsCI SOURCES_LABEL input
        \<and> \<not> containsCI (js ''Chat Response:'') input \<longrightarrow> parseRetrievedFacts input = None)
 \<and> (hasPreamble input \<or> hasFactsText (workingText input) \<longrightarrow> parseRetrievedFacts input \<noteq> None)
 \<and> (afterMarker FACTS_LABEL (workingText input) = None \<longrightarrow>
      (parseRetrievedFacts input = None \<longleftrightarrow>
         \<not> hasPreamble input \<and> \<not> hasSourcesText (workingText input)))
 \<and> (afterMarker FACTS_LABEL (workingText input) = Some u \<and> trim u = [] \<longrightarrow>
      (parseRetrievedFacts input = None \<longleftrightarrow> \<not> hasPreamble input))"
proof (intro conjI impI)
  assume h: "\<not> containsCI FACTS_LABEL input \<and> \<not> containsCI SOURCES_LABEL input
        \<and> \<not> containsCI (js ''Chat Response:'') input"
  then have cm: "re_match True chatResponseRegex input = None"
    using chatResponseRegex_sound by (cases "re_match True chatResponseRegex input") auto
  then have p: "preambleOf input = None" and cf: "contentForFacts input = input"
    by (simp_all add: preambleOf_def contentForFacts_def)
  from h have f: "re_match True factsRegex input = None" by (simp add: factsRegex_None_iff)
  from h have sm: "re_match True sourcesRegex input = None"
    using sourcesRegex_sound by (cases "re_match True sourcesRegex input") auto
  from f sm have "fst (extractBlocks input) = None" "fst (snd (extractBlocks input)) = None"
    by (simp_all add: extractBlocks_def Let_def)
  with p cf show "parseRetrievedFacts input = None"
    by (simp add: parse_None_iff truthy_def)
next
  assume "hasPreamble input \<or> hasFactsText (workingText input)"
  then show "parseRetrievedFacts input \<noteq> None"
    by (auto simp: parse_None_text)
next
  assume n: "afterMarker FACTS_LABEL (workingText input) = None"
  then have "\<not> hasFactsText (workingText input)" by (simp add: hasFactsText_def)
  with sourcesBlock_truthy[OF n]
  show "parseRetrievedFacts input = None \<longleftrightarrow>
         \<not> hasPreamble input \<and> \<not> hasSourcesText (workingText input)"
    by (simp add: parse_None_text)
next
  assume a: "afterMarker FACTS_LABEL (workingText input) = Some u \<and> trim u = []"
  then have "\<not> hasFactsText (workingText input)"
    by (simp add: hasFactsText_def trimStart_def trim_Nil_iff)
  moreover from a have "fst (snd (extractBlocks (workingText input))) = None"
    using sourcesBlock_blank_facts by blast
  ultimately show "parseRetrievedFacts input = None \<longleftrightarrow> \<not> hasPreamble input"
    by (simp add: parse_None_text truthy_def)
qed

theorem null_result_witness:
  "parseRetrievedFacts (js ''hello'') = None
 \<and> parseRetrievedFacts (js ''Retrieved Facts: x'') \<noteq> None
 \<and> parseRetrievedFacts (js ''note'' @ [10] @ js ''Chat Response: hi'') \<noteq> None
 \<and> parseRetrievedFacts (js ''Sources: [1] http://u'') \<noteq> None
 \<and> parseRetrievedFacts (js ''Retrieved Facts: '') = None"
  using null_result [of "js ''hello''"]
    null_result [of "js ''Retrieved Facts: x''"]
    null_result [of "js ''note'' @ [10] @ js ''Chat Response: hi''"]
    null_result [of "js ''Sources: [1] http://u''"]
    null_result [of "js ''Retrieved Facts: ''" "js '' ''"]
  by (simp only: text_hello text_facts text_sources text_blank text_preamble) simp

text \<open>The facts marker alone is a marker, and the result is null.\<close>

theorem null_result_counterexample:
  "parseRetrievedFacts (js ''Retrieved Facts:'') = None
   \<and> containsCI FACTS_LABEL (js ''Retrieved Facts:'')"
  by (simp add: parse_label_only containsCI_def FACTS_LABEL_def)

text \<open>
  C8, as the code has it. When a parse succeeds, its clean text contains no facts marker,
  and parsing the clean text again yields no node and no edge.
\<close>

theorem reparse_clean:
  assumes "parseRetrievedFacts input = Some r"
  shows "\<not> containsCI FACTS_LABEL (pf_cleanText r)
       \<and> (case parseRetrievedFacts (pf_cleanText r) of
            None \<Rightarrow> True
          | Some r' \<Rightarrow> pf_nodes r' = [] \<and> pf_edges r' = [])"
proof -
  have c: "\<not> containsCI FACTS_LABEL (pf_cleanText r)"
    using parse_cleanText[OF assms] extractBlocks_clean by simp
  then show ?thesis
    using parse_no_facts by (auto split: option.splits)
qed

theorem reparse_clean_witness:
  "\<not> containsCI FACTS_LABEL (pf_cleanText c8_result)
   \<and> (case parseRetrievedFacts (pf_cleanText c8_result) of
        None \<Rightarrow> True
      | Some r' \<Rightarrow> pf_nodes r' = [] \<and> pf_edges r' = [])"
  by (rule reparse_clean [OF c8_parse])

text \<open>A sources marker before the facts line stays in the clean text.\<close>

theorem reparse_clean_counterexample:
  "parseRetrievedFacts c8_input = Some c8_result \<and> containsCI SOURCES_LABEL (pf_cleanText c8_result)"
  by (simp add: c8_parse) (simp add: c8_result_def containsCI_def SOURCES_LABEL_def js_def canon_def
      sublist_Cons_right)

section \<open>Properties of the response normalizer\<close>

text \<open>
  C4, as the code has it. \<open>hasStructuredData\<close> is true for every structured payload. When
  the fact text parser succeeds on the answer text, \<open>chatResponse\<close> is the parser's clean
  text if that is not empty, and the unmodified answer text if it is empty. When the parser
  fails on the answer text and on the facts preview (or there is no preview),
  \<open>chatResponse\<close> is the unmodified answer text.
\<close>

theorem normalizer_chatResponse:
  "sp_hasStructuredData (parseStructuredGraphRAGResponse sr srcs fp) = True
   \<and> (parseRetrievedFacts (Chat_Response sr) = Some kg \<longrightarrow>
        sp_chatResponse (parseStructuredGraphRAGResponse sr srcs fp) =
          (if pf_cleanText kg = [] then Chat_Response sr else pf_cleanText kg))
   \<and> (parseRetrievedFacts (Chat_Response sr) = None
        \<and> (fp = None \<or> fp = Some [] \<or> parseRetrievedFacts (join [10] (the fp)) = None) \<longrightarrow>
        sp_chatResponse (parseStructuredGraphRAGResponse sr srcs fp) = Chat_Response sr)"
proof (intro conjI impI)
  show "sp_hasStructuredData (parseStructuredGraphRAGResponse sr srcs fp) = True"
    by (simp add: parseStructuredGraphRAGResponse_def Let_def split: prod.splits)
next
  assume k: "parseRetrievedFacts (Chat_Response sr) = Some kg"
  then have "Chat_Response sr \<noteq> []" by (auto simp: parseRetrievedFacts_def)
  with k have "fst (structuredHolders (Chat_Response sr) (sourceTable srcs) fp) = Some kg"
    by (simp add: structuredHolders_def)
  then show "sp_chatResponse (parseStructuredGraphRAGResponse sr srcs fp) =
          (if pf_cleanText kg = [] then Chat_Response sr else pf_cleanText kg)"
    by (auto simp: parseStructuredGraphRAGResponse_def Let_def cleanTextOr_def split: prod.splits)
next
  assume n: "parseRetrievedFacts (Chat_Response sr) = None
        \<and> (fp = None \<or> fp = Some [] \<or> parseRetrievedFacts (join [10] (the fp)) = None)"
  then have "fst (structuredHolders (Chat_Response sr) (sourceTable srcs) fp) = None"
    by (auto simp: structuredHolders_def split: option.splits prod.splits)
  then show "sp_chatResponse (parseStructuredGraphRAGResponse sr srcs fp) = Chat_Response sr"
    by (auto simp: parseStructuredGraphRAGResponse_def Let_def cleanTextOr_def split: prod.splits)
qed

theorem normalizer_chatResponse_witness:
  "sp_hasStructuredData (parseStructuredGraphRAGResponse (demo_response c8_input) [] None) = True
   \<and> sp_chatResponse (parseStructuredGraphRAGResponse (demo_response c8_input) [] None) = js ''Sources: x''
   \<and> sp_chatResponse (parseStructuredGraphRAGResponse (demo_response (js ''hello'')) [] None) = js ''hello''"
proof -
  have c: "Chat_Response (demo_response t) = t" for t by (simp add: demo_response_def)
  have x: "pf_cleanText c8_result = js ''Sources: x''" "js ''Sources: x'' \<noteq> []"
    by (simp_all add: c8_result_def js_def)
  from normalizer_chatResponse [of "demo_response c8_input" "[]" None c8_result]
    normalizer_chatResponse [of "demo_response (js ''hello'')" "[]" None c8_result]
  show ?thesis
    by (simp add: c c8_parse parse_hello x)
qed

text \<open>
  The example of the specification is all facts and sources: its clean text is empty, and
  \<open>chatResponse\<close> is the whole answer text.
\<close>

theorem normalizer_chatResponse_counterexample:
  "parseRetrievedFacts c2_input = Some c2_result \<and> pf_cleanText c2_result = []
   \<and> sp_chatResponse (parseStructuredGraphRAGResponse (demo_response c2_input) [] None) = c2_input
   \<and> c2_input \<noteq> pf_cleanText c2_result"
proof -
  have p: "parseRetrievedFacts c2_input = Some c2_result" by (rule c2_parse)
  have ne: "c2_input \<noteq> []" by (simp add: c2_input_def)
  have "sp_chatResponse (parseStructuredGraphRAGResponse (demo_response c2_input) [] None) = c2_input"
    by (simp add: parseStructuredGraphRAGResponse_def structuredHolders_def demo_response_def
        p ne cleanTextOr_def c2_result_def Let_def)
  with p ne show ?thesis by (simp add: c2_result_def)
qed

section \<open>Properties of the grouped facts-preview parser\<close>

text \<open>
  C10. A line whose trimmed text begins with \<open>(\<close> appends no edge and leaves the edge
  counter alone; when it holds an entity, that entity becomes the current central entity.
  So a list of lines that all begin with \<open>(\<close> (or are blank), full triple lines among
  them, yields no edge.
\<close>

theorem grouped_paren_line:
  "(startsWith (trim rawLine) (js ''('') \<longrightarrow>
      g_edges (groupedStep srcs rawLine st) = g_edges st
    \<and> g_edgeCounter (groupedStep srcs rawLine st) = g_edgeCounter st
    \<and> g_currentCentral (groupedStep srcs rawLine st) =
        (case fst (parseEntityG (g_nodesById st) (trim rawLine)) of
           None \<Rightarrow> g_currentCentral st
         | Some node \<Rightarrow> Some node))
 \<and> ((\<forall>l \<in> set ls. trim l = [] \<or> startsWith (trim l) (js ''('')) \<longrightarrow>
      fst (snd (parseFactsPreviewGrouped ls srcs)) = [])"
proof (intro conjI impI)
  assume s: "startsWith (trim rawLine) (js ''('')"
  then have ne: "trim rawLine \<noteq> []" by (auto simp: startsWith_def js_def)
  from s ne show "g_edges (groupedStep srcs rawLine st) = g_edges st"
    "g_edgeCounter (groupedStep srcs rawLine st) = g_edgeCounter st"
    "g_currentCentral (groupedStep srcs rawLine st) =
        (case fst (parseEntityG (g_nodesById st) (trim rawLine)) of
           None \<Rightarrow> g_currentCentral st
         | Some node \<Rightarrow> Some node)"
    by (auto simp: groupedStep_def Let_def split: prod.splits option.splits)
next
  assume a: "\<forall>l \<in> set ls. trim l = [] \<or> startsWith (trim l) (js ''('')"
  have step: "g_edges (groupedStep srcs l st) = g_edges st"
    if "trim l = [] \<or> startsWith (trim l) (js ''('')" for l st
    using that by (auto simp: groupedStep_def Let_def split: prod.splits option.splits)
  have "g_edges (fold (groupedStep srcs) ls st) = g_edges st" for st
    using a
  proof (induction ls arbitrary: st)
    case Nil
    then show ?case by simp
  next
    case (Cons l ls)
    then show ?case by (simp add: step)
  qed
  then show "fst (snd (parseFactsPreviewGrouped ls srcs)) = []"
    by (simp add: parseFactsPreviewGrouped_def Let_def groupedInit_def)
qed

theorem grouped_paren_line_witness:
  "g_edges (groupedStep [] c10_line groupedInit) = []
   \<and> g_currentCentral (groupedStep [] c10_line groupedInit) = Some (plainNode (js ''a'') (js ''x''))
   \<and> fst (snd (parseFactsPreviewGrouped [c10_line] [])) = []"
proof -
  have s: "startsWith (trim c10_line) (js ''('')"
    by (simp add: trim_c10) (simp add: c10_line_def startsWith_def js_def)
  have g: "g_edges groupedInit = []" "g_nodesById groupedInit = []"
    by (simp_all add: groupedInit_def)
  from grouped_paren_line [of c10_line "[]" groupedInit "[c10_line]"] s
  show ?thesis
    by (simp add: g trim_c10 c10_entity)
qed

section \<open>Properties of the filter controller\<close>

lemma degreeOf_update: "degreeOf (AList.update j v m) i = (if i = j then v else degreeOf m i)"
  by (simp add: degreeOf_def update_conv')

lemma degreeOf_bump: "degreeOf (bumpDegree j m) i = degreeOf m i + (if i = j then 1 else 0)"
  by (simp add: bumpDegree_def degreeOf_update)

lemma degreeOf_init:
  "degreeOf m i = 0 \<Longrightarrow> degreeOf (fold (\<lambda>n. AList.update (n_id n) 0) ns m) i = 0"
  by (induction ns arbitrary: m) (simp_all add: degreeOf_update)

lemma degreeOf_Nil: "degreeOf [] i = 0"
  by (simp add: degreeOf_def)

lemma degreeOf_edges:
  "degreeOf (fold (\<lambda>e m. bumpDegree (e_target e) (bumpDegree (e_source e) m)) es m) i =
     degreeOf m i + length (filter (\<lambda>e. e_source e = i) es)
       + length (filter (\<lambda>e. e_target e = i) es)"
  by (induction es arbitrary: m) (simp_all add: degreeOf_bump)

lemma degreeOf_degreeMap:
  "degreeOf (degreeMap ns es) i =
     length (filter (\<lambda>e. e_source e = i) es) + length (filter (\<lambda>e. e_target e = i) es)"
  by (simp add: degreeMap_def degreeOf_edges degreeOf_init degreeOf_Nil)

lemmas demo_defs = demo_nodes_def demo_edges_def demo_filter_def demo_filter2_def plainNode_def
  makeNodeId_def js_def

text \<open>
  C6. The degree the viewer reports for a node id does not depend on the filter state: two
  renders of the same graph under any two filter states carry the same degree map, and
  the degree of an id is the number of edges of the full edge list that leave it plus the
  number that enter it (an edge from a node to itself counts at both ends).
\<close>

theorem degree_noninterference:
  "v_degreeMap (KnowledgeGraphViewer lc ns es fs1) = v_degreeMap (KnowledgeGraphViewer lc ns es fs2)
   \<and> degreeOf (v_degreeMap (KnowledgeGraphViewer lc ns es fs1)) i =
       length (filter (\<lambda>e. e_source e = i) es) + length (filter (\<lambda>e. e_target e = i) es)"
  by (simp add: KnowledgeGraphViewer_def Let_def degreeOf_degreeMap)

theorem degree_noninterference_witness:
  "v_degreeMap (KnowledgeGraphViewer asciiLower demo_nodes demo_edges demo_filter)
     = v_degreeMap (KnowledgeGraphViewer asciiLower demo_nodes demo_edges demo_filter2)
   \<and> degreeOf (v_degreeMap (KnowledgeGraphViewer asciiLower demo_nodes demo_edges demo_filter))
        (js ''risk:fraud'') = 1"
proof -
  have c: "length (filter (\<lambda>e. e_source e = js ''risk:fraud'') demo_edges)
         + length (filter (\<lambda>e. e_target e = js ''risk:fraud'') demo_edges) = 1"
    by (simp add: demo_edges_def js_def)
  from degree_noninterference [of asciiLower demo_nodes demo_edges demo_filter demo_filter2
      "js ''risk:fraud''"]
  show ?thesis
    unfolding c .
qed





section \<open>Properties of the canvas dimensions\<close>

text \<open>
  C9. For node counts \<open>n1 \<le> n2\<close> the canvas for \<open>n1\<close> is at most the canvas for \<open>n2\<close> and
  the node width for \<open>n1\<close> is at least the node width for \<open>n2\<close>; for every node count the
  canvas is at least 800, the node width at least 80 and the node height at least 24.
  This holds for every rounding that is monotone and exact on 0 and 1.
\<close>

theorem calculateDimensions_monotone:
  assumes mono: "\<forall>x y. x \<le> y \<longrightarrow> rnd x \<le> rnd y"
    and r0: "rnd 0 = 0" and r1: "rnd 1 = 1" and le: "n1 \<le> n2"
  shows "canvasSize (calculateDimensions rnd n1) \<le> canvasSize (calculateDimensions rnd n2)
       \<and> nodeW (calculateDimensions rnd n2) \<le> nodeW (calculateDimensions rnd n1)
       \<and> 800 \<le> canvasSize (calculateDimensions rnd n1)
       \<and> 80 \<le> nodeW (calculateDimensions rnd n1)
       \<and> 24 \<le> nodeH (calculateDimensions rnd n1)"
proof -
  have m: "\<And>x y. x \<le> y \<Longrightarrow> rnd x \<le> rnd y"
    using mono by blast
  define sf where
    "sf n = (if n > 50 then max (rnd 0.7) (rnd (1 - rnd (rnd (real n - 50) / 200))) else 1)"
    for n :: nat
  have sf_le1: "sf n \<le> 1" for n
  proof (cases "n > 50")
    case True
    have "0 \<le> rnd (real n - 50)"
      using m[of 0 "real n - 50"] True r0 by simp
    then have "0 \<le> rnd (rnd (real n - 50) / 200)"
      using m[of 0 "rnd (real n - 50) / 200"] r0 by simp
    then have "rnd (1 - rnd (rnd (real n - 50) / 200)) \<le> 1"
      using m[of "1 - rnd (rnd (real n - 50) / 200)" 1] r1 by simp
    moreover have "rnd 0.7 \<le> 1"
      using m[of "0.7" 1] r1 by simp
    ultimately show ?thesis
      using True by (simp add: sf_def)
  next
    case False
    then show ?thesis by (simp add: sf_def)
  qed
  have sf_anti: "sf n2 \<le> sf n1"
  proof (cases "n1 > 50")
    case True
    then have n2: "n2 > 50"
      using le by simp
    have "rnd (real n1 - 50) \<le> rnd (real n2 - 50)"
      using le by (intro m) simp
    then have "rnd (rnd (real n1 - 50) / 200) \<le> rnd (rnd (real n2 - 50) / 200)"
      by (intro m) simp
    then have "rnd (1 - rnd (rnd (real n2 - 50) / 200)) \<le> rnd (1 - rnd (rnd (real n1 - 50) / 200))"
      by (intro m) simp
    then show ?thesis
      using True n2 by (simp add: sf_def max.coboundedI2)
  next
    case False
    then have "sf n1 = 1"
      by (simp add: sf_def)
    then show ?thesis
      using sf_le1[of n2] by simp
  qed
  have w: "rnd (120 * sf n2) \<le> rnd (120 * sf n1)"
    using sf_anti by (intro m) simp
  have "rnd (real n1 / 10) \<le> rnd (real n2 / 10)"
    using le by (intro m) (simp add: divide_right_mono)
  then have "rnd (sqrt (rnd (real n1 / 10))) \<le> rnd (sqrt (rnd (real n2 / 10)))"
    by (intro m) simp
  then have c: "rnd (800 * rnd (sqrt (rnd (real n1 / 10)))) \<le> rnd (800 * rnd (sqrt (rnd (real n2 / 10))))"
    by (intro m) simp
  show ?thesis
    using w c by (simp add: calculateDimensions_def Let_def sf_def[symmetric] max.coboundedI2)
qed

theorem calculateDimensions_monotone_witness:
  "canvasSize (calculateDimensions (\<lambda>x. x) 10) \<le> canvasSize (calculateDimensions (\<lambda>x. x) 60)
   \<and> nodeW (calculateDimensions (\<lambda>x. x) 60) \<le> nodeW (calculateDimensions (\<lambda>x. x) 10)
   \<and> 800 \<le> canvasSize (calculateDimensions (\<lambda>x. x) 10)
   \<and> 80 \<le> nodeW (calculateDimensions (\<lambda>x. x) 10)
   \<and> 24 \<le> nodeH (calculateDimensions (\<lambda>x. x) 10)"
  using calculateDimensions_monotone [of "\<lambda>x. x" 10 60] by simp

section \<open>Properties of the layout\<close>














end
